theory Spec2Isabelle
  imports Main "HOL-Library.Monad_Syntax"
begin

section \<open>Errors raised at the boundary\<close>

text \<open>
  The exception classes of the program, as values. \<open>ValidationError\<close>, \<open>LogicError\<close>,
  \<open>InvalidArgument\<close> and \<open>DuplicateArgumentError\<close> are thrown in \<^verbatim>\<open>event.cc\<close> and
  \<^verbatim>\<open>initializer.cc\<close>. \<open>CycleError\<close> is named by the specification's error taxonomy only;
  no source file throws it.
\<close>

datatype error =
    ValidationError string
  | LogicError string
  | InvalidArgument string
  | DuplicateArgumentError string
  | CycleError "string list"

section \<open>The model layer (\<^verbatim>\<open>event.cc\<close>)\<close>

datatype Operator_mef = kAnd | kOr | kVote | kXor | kNot | kNand | kNor | kNull

text \<open>
  \<open>Element\<close> is the base class of events: a name and attributes. Its declaration
  (\<^verbatim>\<open>element.h\<close>) is not among the sources; the attributes are taken as an association list
  from attribute name to attribute value, \<open>HasAttribute\<close> is membership and
  \<open>GetAttribute\<close> raises \<open>LogicError\<close> on a missing attribute.
\<close>

record Element =
  name :: string
  attributes :: "(string \<times> string) list"

definition HasAttribute :: "'a Element_scheme \<Rightarrow> string \<Rightarrow> bool" where
  "HasAttribute e a = (map_of (attributes e) a \<noteq> None)"

definition GetAttribute :: "'a Element_scheme \<Rightarrow> string \<Rightarrow> error + string" where
  "GetAttribute e a =
     (case map_of (attributes e) a of
        None \<Rightarrow> Inl (LogicError ''Element does not have this attribute'')
      | Some v \<Rightarrow> Inr v)"

record BasicEvent = Element +
  has_expression :: bool

record HouseEvent = Element +
  house_has_expression :: bool

text \<open>
  \<open>Formula::EventArg\<close> is a variant over pointers to a gate, a basic event or a house
  event. A gate argument is kept by the gate's identifier.
\<close>

datatype EventArg =
    GateArg string
  | BasicEventArg BasicEvent
  | HouseEventArg HouseEvent

datatype Formula =
  Formula (formula_type: Operator_mef) (formula_vote: int)
          (event_args: "EventArg list") (formula_args: "Formula list")

text \<open>
  \<open>Formula::num_args\<close> is declared in \<^verbatim>\<open>event.h\<close>, which is not among the sources: the
  number of arguments of the formula, event arguments and nested formulas together.
\<close>

definition num_args :: "Formula \<Rightarrow> nat" where
  "num_args f = length (event_args f) + length (formula_args f)"

record Gate = Element +
  formula :: Formula

text \<open>
  The predicate of \<^verbatim>\<open>boost::count_if\<close> in \<open>Gate::Validate\<close>: the argument is a basic
  event that has the attribute \<open>flavor\<close> with value \<open>conditional\<close>.
\<close>

fun is_conditional :: "EventArg \<Rightarrow> bool" where
  "is_conditional (BasicEventArg b) =
     (HasAttribute b ''flavor'' \<and> GetAttribute b ''flavor'' = Inr ''conditional'')"
| "is_conditional _ = False"

definition Gate_Validate :: "Gate \<Rightarrow> error + unit" where
  "Gate_Validate g =
     (if formula_type (formula g) \<noteq> kAnd \<or> \<not> HasAttribute g ''flavor'' \<or>
         GetAttribute g ''flavor'' \<noteq> Inr ''inhibit''
      then Inr ()
      else if num_args (formula g) \<noteq> 2
      then Inl (ValidationError (name g @ ''INHIBIT gate must have only 2 children''))
      else
        let num_conditional = length (filter is_conditional (event_args (formula g)))
        in if num_conditional \<noteq> 1
           then Inl (ValidationError
                  (name g @ '' : INHIBIT gate must have'' @ '' exactly one conditional event.''))
           else Inr ())"

text \<open>The inhibit pattern, in the claim's words: an AND formula with flavor inhibit.\<close>

definition inhibit_pattern :: "Gate \<Rightarrow> bool" where
  "inhibit_pattern g =
     (formula_type (formula g) = kAnd \<and> map_of (attributes g) ''flavor'' = Some ''inhibit'')"

definition conditional_basic_event :: "EventArg \<Rightarrow> bool" where
  "conditional_basic_event a =
     (case a of
        BasicEventArg b \<Rightarrow> map_of (attributes b) ''flavor'' = Some ''conditional''
      | _ \<Rightarrow> False)"

definition is_ValidationError :: "error + 'a \<Rightarrow> bool" where
  "is_ValidationError r = (case r of Inl (ValidationError m) \<Rightarrow> True | _ \<Rightarrow> False)"

section \<open>Input validation (\<^verbatim>\<open>initializer.cc\<close>)\<close>

text \<open>
  The model holds its gates and primary events in unordered maps; the lists below are
  those containers in their iteration order.
\<close>

record Model =
  gates :: "Gate list"
  basic_events :: "BasicEvent list"
  house_events :: "HouseEvent list"

record Settings =
  probability_analysis :: bool

text \<open>
  \<open>cycle::DetectCycle\<close> and \<open>cycle::PrintCycle\<close> are declared in \<^verbatim>\<open>cycle.h\<close>, which is not
  among the sources. They are parameters of the model: \<open>detect g\<close> is \<open>Some cycle\<close> when
  \<open>DetectCycle\<close> returns true and has filled its output vector with \<open>cycle\<close>, and \<open>None\<close>
  when it returns false; \<open>print\<close> renders a cycle.
\<close>

fun check_gate_cycles ::
  "(Gate \<Rightarrow> string list option) \<Rightarrow> (string list \<Rightarrow> string) \<Rightarrow> Gate list \<Rightarrow> error + unit"
where
  "check_gate_cycles detect print [] = Inr ()"
| "check_gate_cycles detect print (g # gs) =
     (case detect g of
        Some cycle \<Rightarrow>
          Inl (ValidationError
                 ((''Detected a cycle in '' @ name g @ '' gate:'' @ [CHR 0x0A]) @ print cycle))
      | None \<Rightarrow> check_gate_cycles detect print gs)"

definition missing_expressions :: "Model \<Rightarrow> string" where
  "missing_expressions m =
     concat (map (\<lambda>b. name b @ [CHR 0x0A]) (filter (\<lambda>b. \<not> has_expression b) (basic_events m))) @
     concat (map (\<lambda>h. name h @ [CHR 0x0A])
                 (filter (\<lambda>h. \<not> house_has_expression h) (house_events m)))"

text \<open>
  \<open>Initializer::CheckFirstLayer\<close>. \<open>validate_expressions\<close> is the outcome of the call of
  \<open>ValidateExpressions\<close> that ends the function.
\<close>

definition CheckFirstLayer ::
  "(Gate \<Rightarrow> string list option) \<Rightarrow> (string list \<Rightarrow> string) \<Rightarrow> (error + unit) \<Rightarrow>
   Settings \<Rightarrow> Model \<Rightarrow> error + unit"
where
  "CheckFirstLayer detect print validate_expressions settings m =
     (case check_gate_cycles detect print (gates m) of
        Inl e \<Rightarrow> Inl e
      | Inr _ \<Rightarrow>
          let msg = (if probability_analysis settings then missing_expressions m else [])
          in let error_messages =
               (if msg \<noteq> []
                then [CHR 0x0A] @ ''These primary events do not have expressions:'' @ [CHR 0x0A] @ msg
                else [])
          in if error_messages \<noteq> [] then Inl (ValidationError error_messages)
             else validate_expressions)"

text \<open>
  Sample parameters for evaluating \<open>CheckFirstLayer\<close>: a detector that reports the
  self-loop of every gate that names itself among its arguments, and a printer that joins
  the names of a cycle with an arrow.
\<close>

definition detect_self_loop :: "Gate \<Rightarrow> string list option" where
  "detect_self_loop g =
     (if GateArg (name g) \<in> set (event_args (formula g)) then Some [name g, name g] else None)"

fun print_arrows :: "string list \<Rightarrow> string" where
  "print_arrows [] = []"
| "print_arrows [x] = x"
| "print_arrows (x # xs) = x @ ''->'' @ print_arrows xs"

definition looping_model :: Model where
  "looping_model =
     \<lparr>gates = [\<lparr>name = ''top'', attributes = [], formula = Formula kNull 0 [GateArg ''top''] []\<rparr>],
      basic_events = [], house_events = []\<rparr>"

definition acyclic_model :: Model where
  "acyclic_model =
     \<lparr>gates = [\<lparr>name = ''top'', attributes = [],
                formula = Formula kNull 0
                            [BasicEventArg \<lparr>name = ''e'', attributes = [], has_expression = False\<rparr>] []\<rparr>],
      basic_events = [\<lparr>name = ''e'', attributes = [], has_expression = False\<rparr>],
      house_events = []\<rparr>"

section \<open>The ZBDD engine (\<^verbatim>\<open>zbdd.h\<close>)\<close>

text \<open>
  \<^verbatim>\<open>zbdd.h\<close> declares \<open>Zbdd::Minimize\<close>, \<open>Zbdd::Subsume\<close> and \<open>Zbdd::GenerateCutSets\<close>;
  their bodies (\<^verbatim>\<open>zbdd.cc\<close>) are not among the sources, so this section follows the
  specification. A ZBDD is a set node over a variable index with a high and a low branch,
  or one of the two terminals. The unique table and the caches of computed results only
  share equal vertices and are not part of the model.
\<close>

datatype zbdd = Empty | Base | SetNode int zbdd zbdd

text \<open>
  The family of sets a vertex denotes: \<open>SetNode v H L\<close> denotes the sets of \<open>H\<close> with \<open>v\<close>
  added, and the sets of \<open>L\<close>.
\<close>

fun sets :: "zbdd \<Rightarrow> int set set" where
  "sets Empty = {}"
| "sets Base = {{}}"
| "sets (SetNode v h l) = insert v ` sets h \<union> sets l"

text \<open>The reduction rule (zero-suppression): a node whose high branch is Empty is its low branch.\<close>

definition make_node :: "int \<Rightarrow> zbdd \<Rightarrow> zbdd \<Rightarrow> zbdd" where
  "make_node v h l = (if h = Empty then l else SetNode v h l)"

text \<open>
  Modelled from the spec: \<open>Zbdd::Subsume\<close>, declared in \<^verbatim>\<open>zbdd.h\<close> without its body.
  \<open>Subsume H L\<close> removes from \<open>H\<close> every set that has a subset in \<open>L\<close>; it recurses along
  matching variable boundaries, and on terminals: nothing is removed by Empty, everything
  is removed by Base, and a terminal \<open>H\<close> is returned as it is.
\<close>

fun Subsume :: "zbdd \<Rightarrow> zbdd \<Rightarrow> zbdd" where
  "Subsume high Empty = high"
| "Subsume high Base = Empty"
| "Subsume Empty (SetNode w h' l') = Empty"
| "Subsume Base (SetNode w h' l') = Base"
| "Subsume (SetNode v h l) (SetNode w h' l') =
     (if w < v then Subsume (SetNode v h l) l'
      else if v = w
      then make_node v (Subsume (Subsume h h') l') (Subsume l l')
      else make_node v (Subsume h (SetNode w h' l')) (Subsume l (SetNode w h' l')))"

text \<open>
  Modelled from the spec: \<open>Zbdd::Minimize\<close>, declared in \<^verbatim>\<open>zbdd.h\<close> without its body:
  \<open>Minimize n = SetNode v (Subsume (Minimize high) (Minimize low)) (Minimize low)\<close>.
\<close>

fun Minimize :: "zbdd \<Rightarrow> zbdd" where
  "Minimize Empty = Empty"
| "Minimize Base = Base"
| "Minimize (SetNode v h l) = make_node v (Subsume (Minimize h) (Minimize l)) (Minimize l)"

text \<open>
  Modelled from the spec: \<open>Zbdd::GenerateCutSets\<close>, declared in \<^verbatim>\<open>zbdd.h\<close> without its
  body: Base yields the empty cut set, Empty yields nothing, and a node yields the cut sets
  of its high branch with its variable added, then those of its low branch. Module proxies
  are not modelled.
\<close>

fun GenerateCutSets :: "zbdd \<Rightarrow> int list list" where
  "GenerateCutSets Empty = []"
| "GenerateCutSets Base = [[]]"
| "GenerateCutSets (SetNode v h l) = map (\<lambda>s. v # s) (GenerateCutSets h) @ GenerateCutSets l"

text \<open>
  The variable order of a ZBDD: every variable is smaller than the variables below it
  (\<open>above b z\<close>: all variables of \<open>z\<close> are greater than \<open>b\<close>).
\<close>

fun above :: "int \<Rightarrow> zbdd \<Rightarrow> bool" where
  "above b Empty = True"
| "above b Base = True"
| "above b (SetNode v h l) = (b < v \<and> above v h \<and> above v l)"

fun ordered :: "zbdd \<Rightarrow> bool" where
  "ordered (SetNode v h l) = (above v h \<and> above v l)"
| "ordered _ = True"

fun reduced :: "zbdd \<Rightarrow> bool" where
  "reduced (SetNode v h l) = (h \<noteq> Empty \<and> reduced h \<and> reduced l)"
| "reduced _ = True"

definition antichain :: "int set set \<Rightarrow> bool" where
  "antichain F = (\<forall>s \<in> F. \<forall>t \<in> F. \<not> t \<subset> s)"

definition minimal_sets :: "int set set \<Rightarrow> int set set" where
  "minimal_sets F = {s \<in> F. \<forall>t \<in> F. \<not> t \<subset> s}"

section \<open>The indexed Boolean graph\<close>

text \<open>
  The preprocessor (\<^verbatim>\<open>preprocessor.cc\<close>) works on the indexed Boolean graph. The classes of
  the graph (\<open>Node\<close>, \<open>IGate\<close>, \<open>Variable\<close>, \<open>Constant\<close>, \<open>BooleanGraph\<close>) are declared in
  \<^verbatim>\<open>boolean_graph.h\<close>, which is not among the sources. Their data is modelled from the
  specification's data model and from the accessors the preprocessor calls.
\<close>

datatype Operator =
  kAndGate | kOrGate | kAtleastGate | kXorGate | kNotGate | kNandGate | kNorGate | kNullGate

datatype State = kNormalState | kNullState | kUnityState

datatype NodeKind = kGate | kVariable | kConstant

text \<open>
  One record holds the fields of the three variants of a node. \<open>parents\<close> are the indices of
  the parent gates; \<open>const_state\<close> is the Boolean state of a constant; the other fields after
  \<open>opti_value\<close> belong to gates. \<open>args\<close> is the ordered set of signed argument indices, kept
  as an ascending list; the arguments that are gates, variables or constants are those whose
  absolute index is a node of that kind.
\<close>

record Node =
  kind :: NodeKind
  parents :: "int list"
  opti_value :: int
  const_state :: bool
  type :: Operator
  state :: State
  vote_number :: int
  args :: "int list"
  mark :: bool
  num_failed_args :: int

text \<open>
  The graph is a store of nodes by index, the index of the root gate, and the index that
  the next new node gets. Gates are shared: besides the graph, the functions that run hold
  pointers to gates in local variables and containers, which keep those gates alive;
  \<open>held\<close> lists the indices of the gates so held where a function relies on it.
\<close>

record BooleanGraph =
  nodes :: "(int \<times> Node) list"
  root :: int
  next_index :: int
  held :: "int list"

definition node_at :: "BooleanGraph \<Rightarrow> int \<Rightarrow> Node option" where
  "node_at G i = map_of (nodes G) i"

definition gate_of :: "BooleanGraph \<Rightarrow> int \<Rightarrow> Node option" where
  "gate_of G g =
     (case node_at G g of
        Some n \<Rightarrow> if kind n = kGate then Some n else None
      | None \<Rightarrow> None)"

definition upd_node :: "int \<Rightarrow> (Node \<Rightarrow> Node) \<Rightarrow> BooleanGraph \<Rightarrow> BooleanGraph" where
  "upd_node i f G = G\<lparr>nodes := map (\<lambda>(k, n). if k = i then (k, f n) else (k, n)) (nodes G)\<rparr>"

definition del_node :: "int \<Rightarrow> BooleanGraph \<Rightarrow> BooleanGraph" where
  "del_node i G = G\<lparr>nodes := filter (\<lambda>(k, n). k \<noteq> i) (nodes G)\<rparr>"

text \<open>
  The preprocessor's functions return no error. A result \<open>None\<close> of a model function means
  that the run does not continue normally: an \<^verbatim>\<open>assert\<close> of the source fails in a build that
  compiles assertions in (\<open>dbg\<close> is true), or the source dereferences a pointer or an
  iterator that does not exist.
\<close>

definition assert_that :: "bool \<Rightarrow> bool \<Rightarrow> unit option" where
  "assert_that dbg c = (if dbg \<and> \<not> c then None else Some ())"

definition remove_parent :: "int \<Rightarrow> Node \<Rightarrow> Node" where
  "remove_parent p n = n\<lparr>parents := removeAll p (parents n)\<rparr>"

text \<open>
  Modelled from the spec: the life cycle of gates, implemented by shared pointers in
  \<^verbatim>\<open>boolean_graph.h\<close>, which is not among the sources. A gate is owned by the gates that
  have it as argument and by the graph when it is the root; a gate that nobody owns any
  more is discarded, and it is detached from its arguments, which may then be discarded in
  turn. \<open>release keep w G\<close> discards the gates of the work list \<open>w\<close> that have no parent,
  are not the root and are neither held nor among the indices \<open>keep\<close>.
\<close>

function release :: "int list \<Rightarrow> int list \<Rightarrow> BooleanGraph \<Rightarrow> BooleanGraph" where
  "release keep [] G = G"
| "release keep (i # w) G =
     (case node_at G i of
        None \<Rightarrow> release keep w G
      | Some n \<Rightarrow>
          if kind n \<noteq> kGate \<or> parents n \<noteq> [] \<or> i = root G \<or> i \<in> set keep \<or>
             i \<in> set (held G)
          then release keep w G
          else release keep (map abs (args n) @ w)
                 (fold (\<lambda>c. upd_node c (remove_parent i)) (map abs (args n)) (del_node i G)))"
  by pat_completeness auto

lemma length_nodes_upd_node [simp]: "length (nodes (upd_node i f G)) = length (nodes G)"
  by (simp add: upd_node_def)

lemma root_upd_node [simp]: "root (upd_node i f G) = root G"
  by (simp add: upd_node_def)

lemma held_upd_node [simp]: "held (upd_node i f G) = held G"
  by (simp add: upd_node_def)

lemma length_nodes_fold_upd [simp]:
  "length (nodes (fold (\<lambda>c. upd_node c (f c)) cs G)) = length (nodes G)"
  by (induction cs arbitrary: G) simp_all

lemma length_del_node: "node_at G i = Some n \<Longrightarrow> length (nodes (del_node i G)) < length (nodes G)"
proof -
  assume "node_at G i = Some n"
  then have "(i, n) \<in> set (nodes G)" by (simp add: node_at_def map_of_SomeD)
  then show ?thesis
    unfolding del_node_def using length_filter_less [of "(i, n)" "nodes G" "\<lambda>(k, n). k \<noteq> i"]
    by simp
qed

termination release
  by (relation "measures [\<lambda>(keep, w, G). length (nodes G), \<lambda>(keep, w, G). length w]")
     (auto simp: length_del_node)

declare release.simps [simp del]

text \<open>
  Modelled from the spec: \<open>IGate::EraseAllArgs\<close> and \<open>IGate::EraseArg\<close>, declared in
  \<^verbatim>\<open>boolean_graph.h\<close>, which is not among the sources. Erasing an argument removes the
  signed index from the gate's arguments and the gate from the parents of the argument
  (each mutating operation maintains the parent links); an argument that loses its last
  owner is discarded. Erasing an index that is not an argument changes nothing.
\<close>

definition EraseAllArgs :: "int \<Rightarrow> BooleanGraph \<Rightarrow> BooleanGraph" where
  "EraseAllArgs g G =
     (case node_at G g of
        None \<Rightarrow> G
      | Some n \<Rightarrow>
          release [g] (map abs (args n))
            (fold (\<lambda>c. upd_node c (remove_parent g)) (map abs (args n))
               (upd_node g (\<lambda>n. n\<lparr>args := []\<rparr>) G)))"

definition EraseArg :: "int \<Rightarrow> int \<Rightarrow> BooleanGraph \<Rightarrow> BooleanGraph" where
  "EraseArg g a G =
     (case node_at G g of
        None \<Rightarrow> G
      | Some n \<Rightarrow>
          if a \<notin> set (args n) then G
          else release [g] [abs a]
                 (upd_node (abs a) (remove_parent g)
                    (upd_node g (\<lambda>n. n\<lparr>args := removeAll a (args n)\<rparr>) G)))"

text \<open>
  Modelled from the spec: \<open>IGate::Nullify\<close> and \<open>IGate::MakeUnity\<close>, declared in
  \<^verbatim>\<open>boolean_graph.h\<close>, which is not among the sources. The gate's state becomes Null
  (constant 0) or Unity (constant 1); a gate whose state is not Normal has no arguments.
\<close>

definition Nullify :: "int \<Rightarrow> BooleanGraph \<Rightarrow> BooleanGraph" where
  "Nullify g G = EraseAllArgs g (upd_node g (\<lambda>n. n\<lparr>state := kNullState\<rparr>) G)"

definition MakeUnity :: "int \<Rightarrow> BooleanGraph \<Rightarrow> BooleanGraph" where
  "MakeUnity g G = EraseAllArgs g (upd_node g (\<lambda>n. n\<lparr>state := kUnityState\<rparr>) G)"

text \<open>The setters \<open>IGate::type(Operator)\<close> and \<open>IGate::vote_number(int)\<close>.\<close>

definition set_type :: "int \<Rightarrow> Operator \<Rightarrow> BooleanGraph \<Rightarrow> BooleanGraph" where
  "set_type g t G = upd_node g (\<lambda>n. n\<lparr>type := t\<rparr>) G"

definition set_vote_number :: "int \<Rightarrow> int \<Rightarrow> BooleanGraph \<Rightarrow> BooleanGraph" where
  "set_vote_number g k G = upd_node g (\<lambda>n. n\<lparr>vote_number := k\<rparr>) G"

section \<open>The preprocessor (\<^verbatim>\<open>preprocessor.cc\<close>)\<close>

text \<open>
  \<open>Preprocessor::ProcessConstantArg\<close>. The result is the returned Boolean, the vector
  \<open>to_erase\<close> and the graph. The count \<open>n\<close> of the source is the difference of two sizes
  converted to \<open>int\<close>.
\<close>

definition ProcessConstantArg ::
  "bool \<Rightarrow> int \<Rightarrow> int \<Rightarrow> bool \<Rightarrow> int list \<Rightarrow> BooleanGraph \<Rightarrow>
   (bool \<times> int list \<times> BooleanGraph) option"
where
  "ProcessConstantArg dbg gate arg st to_erase G = do {
     n \<leftarrow> gate_of G gate;
     let parent_type = type n;
     if \<not> st then
       (case parent_type of
          kNorGate \<Rightarrow> Some (False, to_erase @ [arg], G)
        | kXorGate \<Rightarrow> Some (False, to_erase @ [arg], G)
        | kOrGate \<Rightarrow> Some (False, to_erase @ [arg], G)
        | kNullGate \<Rightarrow> Some (True, to_erase, Nullify gate G)
        | kAndGate \<Rightarrow> Some (True, to_erase, Nullify gate G)
        | kNandGate \<Rightarrow> Some (True, to_erase, MakeUnity gate G)
        | kNotGate \<Rightarrow> Some (True, to_erase, MakeUnity gate G)
        | kAtleastGate \<Rightarrow>
            let to_erase' = to_erase @ [arg];
                k = vote_number n;
                n' = int (length (args n)) - int (length to_erase')
            in Some (False, to_erase', if k = n' then set_type gate kAndGate G else G))
     else
       (case parent_type of
          kNullGate \<Rightarrow> Some (True, to_erase, MakeUnity gate G)
        | kOrGate \<Rightarrow> Some (True, to_erase, MakeUnity gate G)
        | kNandGate \<Rightarrow> Some (False, to_erase @ [arg], G)
        | kAndGate \<Rightarrow> Some (False, to_erase @ [arg], G)
        | kNorGate \<Rightarrow> Some (True, to_erase, Nullify gate G)
        | kNotGate \<Rightarrow> Some (True, to_erase, Nullify gate G)
        | kXorGate \<Rightarrow> do {
            _ \<leftarrow> assert_that dbg (length (args n) = 2);
            if length to_erase = 1 then Some (True, to_erase, MakeUnity gate G)
            else do {
              _ \<leftarrow> assert_that dbg (to_erase = []);
              Some (False, to_erase @ [arg], set_type gate kNotGate G)
            }
          }
        | kAtleastGate \<Rightarrow> do {
            let k = vote_number n - 1;
            let G1 = (if k = 1 then set_type gate kOrGate G else G);
            _ \<leftarrow> assert_that dbg (k > 1);
            Some (False, to_erase @ [arg], set_vote_number gate k G1)
          })
   }"

text \<open>
  The table of the specification for a constant argument, with the row of NULL parents as
  the code has it: what happens to the parent, given its operator, its vote number \<open>k\<close>,
  the number \<open>n\<close> of its arguments, the number \<open>q\<close> of arguments already queued for erasure
  and the effective state of the argument. Either the argument is queued for erasure and
  the parent, still in Normal state, has the given operator and vote number, or the parent
  becomes the given constant.
\<close>

datatype ArgAction = EraseArgument Operator int | BecomeConstant State

definition constant_arg_table :: "Operator \<Rightarrow> int \<Rightarrow> nat \<Rightarrow> nat \<Rightarrow> bool \<Rightarrow> ArgAction" where
  "constant_arg_table t k n q st =
     (case t of
        kOrGate \<Rightarrow> if st then BecomeConstant kUnityState else EraseArgument kOrGate k
      | kNorGate \<Rightarrow> if st then BecomeConstant kNullState else EraseArgument kNorGate k
      | kAndGate \<Rightarrow> if st then EraseArgument kAndGate k else BecomeConstant kNullState
      | kNandGate \<Rightarrow> if st then EraseArgument kNandGate k else BecomeConstant kUnityState
      | kNotGate \<Rightarrow> if st then BecomeConstant kNullState else BecomeConstant kUnityState
      | kNullGate \<Rightarrow> if st then BecomeConstant kUnityState else BecomeConstant kNullState
      | kXorGate \<Rightarrow>
          if \<not> st then EraseArgument kXorGate k
          else if q = 1 then BecomeConstant kUnityState
          else EraseArgument kNotGate k
      | kAtleastGate \<Rightarrow>
          if \<not> st
          then EraseArgument (if k = int n - (int q + 1) then kAndGate else kAtleastGate) k
          else EraseArgument (if k - 1 = 1 then kOrGate else kAtleastGate) (k - 1))"

text \<open>
  What a call of \<open>ProcessConstantArg\<close> did to the parent, read from its result: it returned
  true and left the parent constant with \<open>to_erase\<close> unchanged, or it returned false with
  the argument appended to \<open>to_erase\<close> and the parent in Normal state.
\<close>

definition observed_action ::
  "int \<Rightarrow> int \<Rightarrow> int list \<Rightarrow> (bool \<times> int list \<times> BooleanGraph) option \<Rightarrow> ArgAction option"
where
  "observed_action gate arg to_erase r =
     (case r of
        None \<Rightarrow> None
      | Some (ret, to_erase', G') \<Rightarrow>
          (case gate_of G' gate of
             None \<Rightarrow> None
           | Some n' \<Rightarrow>
               if ret
               then (if state n' \<noteq> kNormalState \<and> to_erase' = to_erase \<and> args n' = []
                     then Some (BecomeConstant (state n')) else None)
               else (if state n' = kNormalState \<and> to_erase' = to_erase @ [arg]
                     then Some (EraseArgument (type n') (vote_number n')) else None)))"

text \<open>The assertions on the path of \<open>ProcessConstantArg\<close> for a parent \<open>n\<close>.\<close>

definition constant_arg_asserts :: "Node \<Rightarrow> bool \<Rightarrow> int list \<Rightarrow> bool" where
  "constant_arg_asserts n st to_erase =
     (st \<longrightarrow>
        (type n = kXorGate \<longrightarrow> length (args n) = 2 \<and> (length to_erase \<noteq> 1 \<longrightarrow> to_erase = [])) \<and>
        (type n = kAtleastGate \<longrightarrow> vote_number n - 1 > 1))"

text \<open>Sample nodes and graphs for evaluation.\<close>

definition example_gate :: "Operator \<Rightarrow> int \<Rightarrow> int list \<Rightarrow> int list \<Rightarrow> Node" where
  "example_gate t k as ps =
     \<lparr>kind = kGate, parents = ps, opti_value = 0, const_state = False, type = t,
      state = kNormalState, vote_number = k, args = as, mark = False, num_failed_args = 0\<rparr>"

definition example_leaf :: "NodeKind \<Rightarrow> bool \<Rightarrow> int list \<Rightarrow> Node" where
  "example_leaf knd b ps =
     \<lparr>kind = knd, parents = ps, opti_value = 0, const_state = b, type = kNullGate,
      state = kNormalState, vote_number = 0, args = [], mark = False, num_failed_args = 0\<rparr>"

definition null_parent_graph :: BooleanGraph where
  "null_parent_graph =
     \<lparr>nodes = [(10, example_gate kNullGate 0 [1] []), (1, example_leaf kConstant False [10])],
      root = 10, next_index = 11, held = []\<rparr>"

definition atleast_parent_graph :: BooleanGraph where
  "atleast_parent_graph =
     \<lparr>nodes = [(10, example_gate kAtleastGate 2 [1, 2, 3] []),
               (1, example_leaf kConstant True [10]),
               (2, example_leaf kVariable False [10]),
               (3, example_leaf kVariable False [10])],
      root = 10, next_index = 11, held = []\<rparr>"

text \<open>Two nodes are the same but for their parents.\<close>

definition same_but_parents :: "Node \<Rightarrow> Node \<Rightarrow> bool" where
  "same_but_parents n n' = (n' = n\<lparr>parents := parents n'\<rparr>)"

text \<open>
  The arguments of a gate that are gates (\<open>IGate::gate_args\<close>), as signed indices. The source
  keeps them in an unordered map; the model lists them in the order of \<open>args\<close>.
\<close>

definition gate_args :: "BooleanGraph \<Rightarrow> Node \<Rightarrow> int list" where
  "gate_args G n = filter (\<lambda>a. gate_of G (abs a) \<noteq> None) (args n)"

text \<open>
  Modelled from the spec: the constructor \<open>IGate(type)\<close>, declared in \<^verbatim>\<open>boolean_graph.h\<close>,
  which is not among the sources. A new gate gets the next index; it is in Normal state and
  has no arguments, no parents and no mark.
\<close>

definition new_IGate :: "Operator \<Rightarrow> BooleanGraph \<Rightarrow> int \<times> BooleanGraph" where
  "new_IGate t G =
     (next_index G,
      G\<lparr>nodes :=
           (next_index G,
            \<lparr>kind = kGate, parents = [], opti_value = 0, const_state = False, type = t,
             state = kNormalState, vote_number = 0, args = [], mark = False,
             num_failed_args = 0\<rparr>) # nodes G,
        next_index := next_index G + 1\<rparr>)"

text \<open>The state of the preprocessor: the graph and the members of \<open>Preprocessor\<close>.\<close>

record Preprocessor =
  graph :: BooleanGraph
  root_sign :: int
  constants :: bool
  const_gates :: "int list"
  null_gates :: "int list"

text \<open>
  \<open>Preprocessor::ProcessFaultTree\<close>, the statements after the removal of NULL gates and
  before the propagation of complements: the return on a root that has become constant,
  and the special case of a root of NULL type. The local variable \<open>root\<close> of the source is
  the root of the graph throughout. The Boolean of the result tells whether
  \<open>ProcessFaultTree\<close> returns here. Replacing the root pointer releases the old root.
\<close>

definition ProcessFaultTree_root :: "bool \<Rightarrow> Preprocessor \<Rightarrow> (bool \<times> Preprocessor) option" where
  "ProcessFaultTree_root dbg P = do {
     let G = graph P;
     let r = root G;
     rn \<leftarrow> gate_of G r;
     if state rn \<noteq> kNormalState then
       (if root_sign P < 0 then do {
          let orig_state = state rn;
          let (r', G1) = new_IGate kNullGate G;
          let G2 = release [] [r] (G1\<lparr>root := r'\<rparr>);
          if orig_state = kNullState
          then Some (True, P\<lparr>graph := MakeUnity r' G2, root_sign := 1\<rparr>)
          else do {
            _ \<leftarrow> assert_that dbg (orig_state = kUnityState);
            Some (True, P\<lparr>graph := Nullify r' G2, root_sign := 1\<rparr>)
          }
        }
        else Some (True, P))
     else if type rn = kNullGate then do {
       _ \<leftarrow> assert_that dbg (length (args rn) = 1);
       (case gate_args G rn of
          [] \<Rightarrow> Some (False, P)
        | signed_index # _ \<Rightarrow> do {
            let arg = abs signed_index;
            let G1 = release [] [r] (G\<lparr>root := arg\<rparr>);
            an \<leftarrow> gate_of G1 arg;
            _ \<leftarrow> assert_that dbg (parents an = []);
            _ \<leftarrow> assert_that dbg (type an = kOrGate \<or> type an = kAndGate);
            Some (False,
                  P\<lparr>graph := G1,
                    root_sign := root_sign P * (if signed_index > 0 then 1 else - 1)\<rparr>)
          })
     }
     else Some (False, P)
   }"

definition null_root_graph :: BooleanGraph where
  "null_root_graph =
     \<lparr>nodes = [(10, example_gate kNullGate 0 [- 11] []),
               (11, example_gate kAndGate 0 [1, 2] [10]),
               (1, example_leaf kVariable False [11]),
               (2, example_leaf kVariable False [11])],
      root = 10, next_index = 12, held = []\<rparr>"

definition null_root_preprocessor :: Preprocessor where
  "null_root_preprocessor =
     \<lparr>graph = null_root_graph, root_sign = 1, constants = False, const_gates = [],
      null_gates = []\<rparr>"

text \<open>
  Modelled from the spec: \<open>IGate::AddArg\<close>, declared in \<^verbatim>\<open>boolean_graph.h\<close>, which is not
  among the sources. Adding an argument that the gate already has with the same sign fails
  and changes nothing; when the gate has the argument with the opposite sign, the gate
  becomes constant by its operator (0 for AND and NOR, 1 for OR, NAND and XOR; the
  specification says nothing for the other operators, which are left as they are) and the
  call fails; otherwise the signed index joins the arguments and the gate joins the
  parents of the argument. The result is the Boolean the source returns and the graph.
\<close>

definition add_parent :: "int \<Rightarrow> Node \<Rightarrow> Node" where
  "add_parent p n = n\<lparr>parents := (if p \<in> set (parents n) then parents n else parents n @ [p])\<rparr>"

definition AddArg :: "int \<Rightarrow> int \<Rightarrow> BooleanGraph \<Rightarrow> bool \<times> BooleanGraph" where
  "AddArg g a G =
     (case node_at G g of
        None \<Rightarrow> (False, G)
      | Some n \<Rightarrow>
          if a \<in> set (args n) then (False, G)
          else if - a \<in> set (args n)
          then (False,
                if type n = kAndGate \<or> type n = kNorGate then Nullify g G
                else if type n = kOrGate \<or> type n = kNandGate \<or> type n = kXorGate
                then MakeUnity g G
                else G)
          else (True,
                upd_node (abs a) (add_parent g)
                  (upd_node g (\<lambda>n. n\<lparr>args := insort a (args n)\<rparr>) G)))"

text \<open>
  Modelled from the spec: \<open>IGate::ShareArg\<close>, declared in \<^verbatim>\<open>boolean_graph.h\<close>, which is not
  among the sources: it copies an argument of the gate to another gate.
\<close>

definition ShareArg :: "int \<Rightarrow> int \<Rightarrow> int \<Rightarrow> BooleanGraph \<Rightarrow> BooleanGraph" where
  "ShareArg g a recipient G =
     (case node_at G g of
        None \<Rightarrow> G
      | Some n \<Rightarrow> if a \<in> set (args n) then snd (AddArg recipient a G) else G)"

definition set_mark :: "int \<Rightarrow> bool \<Rightarrow> BooleanGraph \<Rightarrow> BooleanGraph" where
  "set_mark g b G = upd_node g (\<lambda>n. n\<lparr>mark := b\<rparr>) G"

text \<open>
  \<open>Preprocessor::NormalizeAtleastGate\<close>. The recursion of the source is over gates that it
  has just created; the model is a partial function of the graph, and its termination on
  the gates the claims are about is part of the theorems. Taking the first element of an
  empty set of arguments gives no result.
\<close>

partial_function (option) NormalizeAtleastGate ::
  "bool \<Rightarrow> int \<Rightarrow> BooleanGraph \<Rightarrow> BooleanGraph option"
where
  "NormalizeAtleastGate dbg gate G = do {
     n \<leftarrow> gate_of G gate;
     _ \<leftarrow> assert_that dbg (type n = kAtleastGate);
     let k = vote_number n;
     _ \<leftarrow> assert_that dbg (k > 0);
     _ \<leftarrow> assert_that dbg (length (args n) > 1);
     if int (length (args n)) = k then Some (set_type gate kAndGate G)
     else if k = 1 then Some (set_type gate kOrGate G)
     else
       (case args n of
          [] \<Rightarrow> None
        | first # rest \<Rightarrow> do {
            let (first_arg, G1) = new_IGate kAndGate G;
            let G2 = ShareArg gate first first_arg G1;
            let (grand_arg, G3) = new_IGate kAtleastGate G2;
            let G4 = snd (AddArg first_arg grand_arg G3);
            let G5 = set_vote_number grand_arg (k - 1) G4;
            let (second_arg, G6) = new_IGate kAtleastGate G5;
            let G7 = set_vote_number second_arg k G6;
            let G8 = fold (\<lambda>a G. ShareArg gate a second_arg (ShareArg gate a grand_arg G)) rest G7;
            let G9 = set_mark grand_arg True (set_mark second_arg True (set_mark first_arg True G8));
            let G10 = set_type gate kOrGate G9;
            let G11 = EraseAllArgs gate G10;
            let G12 = snd (AddArg gate first_arg G11);
            let G13 = snd (AddArg gate second_arg G12);
            G14 \<leftarrow> NormalizeAtleastGate dbg grand_arg G13;
            NormalizeAtleastGate dbg second_arg G14
          })
   }"

declare NormalizeAtleastGate.simps [code]

text \<open>
  The logic of a graph below a gate, read as a formula. The reading stops at the indices
  of a frontier \<open>F\<close> and at nodes that are not gates, which are literals; \<open>fuel\<close> bounds the
  depth of the reading. A vote number is read for ATLEAST gates only.
\<close>

datatype formula =
    Lit int
  | Const bool
  | Neg formula
  | Op Operator int "formula list"

fun those_formulas :: "formula option list \<Rightarrow> formula list option" where
  "those_formulas [] = Some []"
| "those_formulas (None # xs) = None"
| "those_formulas (Some x # xs) = map_option ((#) x) (those_formulas xs)"

fun formula_of :: "nat \<Rightarrow> int list \<Rightarrow> BooleanGraph \<Rightarrow> int \<Rightarrow> formula option" where
  "formula_of 0 F G a = None"
| "formula_of (Suc fuel) F G a =
     (if abs a \<in> set F then Some (Lit a)
      else
        (case gate_of G (abs a) of
           None \<Rightarrow> Some (Lit a)
         | Some n \<Rightarrow>
             map_option (\<lambda>f. if a < 0 then Neg f else f)
               (case state n of
                  kNullState \<Rightarrow> Some (Const False)
                | kUnityState \<Rightarrow> Some (Const True)
                | kNormalState \<Rightarrow>
                    map_option (Op (type n) (if type n = kAtleastGate then vote_number n else 0))
                      (those_formulas (map (formula_of fuel F G) (args n))))))"

definition lit :: "(int \<Rightarrow> bool) \<Rightarrow> int \<Rightarrow> bool" where
  "lit \<rho> a = (if a < 0 then \<not> \<rho> (- a) else \<rho> a)"

definition count_true :: "bool list \<Rightarrow> int" where
  "count_true bs = int (length (filter id bs))"

definition apply_operator :: "Operator \<Rightarrow> int \<Rightarrow> bool list \<Rightarrow> bool" where
  "apply_operator t k bs =
     (case t of
        kAndGate \<Rightarrow> list_all id bs
      | kOrGate \<Rightarrow> list_ex id bs
      | kAtleastGate \<Rightarrow> k \<le> count_true bs
      | kXorGate \<Rightarrow> odd (count_true bs)
      | kNotGate \<Rightarrow> \<not> list_all id bs
      | kNandGate \<Rightarrow> \<not> list_all id bs
      | kNorGate \<Rightarrow> \<not> list_ex id bs
      | kNullGate \<Rightarrow> list_all id bs)"

fun eval_formula :: "(int \<Rightarrow> bool) \<Rightarrow> formula \<Rightarrow> bool" where
  "eval_formula \<rho> (Lit a) = lit \<rho> a"
| "eval_formula \<rho> (Const b) = b"
| "eval_formula \<rho> (Neg f) = (\<not> eval_formula \<rho> f)"
| "eval_formula \<rho> (Op t k fs) = apply_operator t k (map (eval_formula \<rho>) fs)"

text \<open>
  The expansion of ATLEAST(k) over a list of arguments, in the words of the specification:
  OR of AND of the first argument and ATLEAST(k - 1) of the rest, and ATLEAST(k) of the
  rest; AND of all when the number of arguments is k, OR of all when k is 1.
\<close>

fun atleast_expansion :: "int \<Rightarrow> int list \<Rightarrow> formula" where
  "atleast_expansion k [] =
     (if k = 0 then Op kAndGate 0 [] else if k = 1 then Op kOrGate 0 [] else Op kAtleastGate k [])"
| "atleast_expansion k (a # as) =
     (if int (length (a # as)) = k then Op kAndGate 0 (map Lit (a # as))
      else if k = 1 then Op kOrGate 0 (map Lit (a # as))
      else Op kOrGate 0
             [Op kAndGate 0 [Lit a, atleast_expansion (k - 1) as], atleast_expansion k as])"

definition atleast_graph :: BooleanGraph where
  "atleast_graph =
     \<lparr>nodes = [(10, example_gate kAtleastGate 2 [1, 2, 3] []),
               (1, example_leaf kVariable False [10]),
               (2, example_leaf kVariable False [10]),
               (3, example_leaf kVariable False [10])],
      root = 10, next_index = 11, held = []\<rparr>"

text \<open>
  The content of a node is the node without its parent links; \<open>parent_of G p i\<close> says
  that \<open>p\<close> is among the parents of node \<open>i\<close> if that node exists.
\<close>

definition strip :: "Node \<Rightarrow> Node" where
  "strip n = n\<lparr>parents := []\<rparr>"

definition content :: "BooleanGraph \<Rightarrow> int \<Rightarrow> Node option" where
  "content G i = map_option strip (node_at G i)"

definition parent_of :: "BooleanGraph \<Rightarrow> int \<Rightarrow> int \<Rightarrow> bool" where
  "parent_of G p i = (case node_at G i of None \<Rightarrow> True | Some m \<Rightarrow> p \<in> set (parents m))"

definition new_gate_node :: "Operator \<Rightarrow> Node" where
  "new_gate_node t =
     \<lparr>kind = kGate, parents = [], opti_value = 0, const_state = False, type = t,
      state = kNormalState, vote_number = 0, args = [], mark = False, num_failed_args = 0\<rparr>"

text \<open>
  The graph after the statements of \<open>NormalizeAtleastGate\<close> between its early returns and
  its recursive calls, with the indices of the two new ATLEAST gates; the same statements as
  in the function, named for the proofs.
\<close>

definition NormalizeAtleastGate_split ::
  "int \<Rightarrow> int \<Rightarrow> int \<Rightarrow> int list \<Rightarrow> BooleanGraph \<Rightarrow> int \<times> int \<times> BooleanGraph"
where
  "NormalizeAtleastGate_split gate k first rest G =
     (let (first_arg, G1) = new_IGate kAndGate G;
          G2 = ShareArg gate first first_arg G1;
          (grand_arg, G3) = new_IGate kAtleastGate G2;
          G4 = snd (AddArg first_arg grand_arg G3);
          G5 = set_vote_number grand_arg (k - 1) G4;
          (second_arg, G6) = new_IGate kAtleastGate G5;
          G7 = set_vote_number second_arg k G6;
          G8 = fold (\<lambda>a G. ShareArg gate a second_arg (ShareArg gate a grand_arg G)) rest G7;
          G9 = set_mark grand_arg True (set_mark second_arg True (set_mark first_arg True G8));
          G10 = set_type gate kOrGate G9;
          G11 = EraseAllArgs gate G10;
          G12 = snd (AddArg gate first_arg G11);
          G13 = snd (AddArg gate second_arg G12)
      in (grand_arg, second_arg, G13))"

text \<open>
  A loop over a list whose body may fail: the state is threaded through the elements and
  the first failure ends the loop.
\<close>

fun fold_option :: "('a \<Rightarrow> 's \<Rightarrow> 's option) \<Rightarrow> 'a list \<Rightarrow> 's \<Rightarrow> 's option" where
  "fold_option f [] s = Some s"
| "fold_option f (x # xs) s = (case f x s of None \<Rightarrow> None | Some s' \<Rightarrow> fold_option f xs s')"

lemma fold_option_cong [fundef_cong]:
  "xs = ys \<Longrightarrow> s = t \<Longrightarrow> (\<And>x s. x \<in> set ys \<Longrightarrow> f x s = g x s) \<Longrightarrow>
   fold_option f xs s = fold_option g ys t"
proof (induction ys arbitrary: xs s t)
  case Nil
  then show ?case by simp
next
  case (Cons y ys)
  then show ?case by (auto split: option.splits)
qed

text \<open>Insertion into an ordered set kept as an ascending list (\<open>std::set\<close>, keys of \<open>std::map\<close>).\<close>

definition set_insert :: "int \<Rightarrow> int list \<Rightarrow> int list" where
  "set_insert a xs = (if a \<in> set xs then xs else insort a xs)"















text \<open>
  The rewriting of a redundant parent with content \<open>c\<close>, in the words of the specification:
  an AND parent is nullified; an OR parent drops the node and becomes a NULL gate when one
  argument is left; an ATLEAST parent drops the node and becomes an AND gate when the
  number of its arguments reaches its vote number.
\<close>

definition redundant_rewrite :: "int \<Rightarrow> Node \<Rightarrow> Node" where
  "redundant_rewrite node c =
     (case type c of
        kAndGate \<Rightarrow> c\<lparr>state := kNullState, args := []\<rparr>
      | kOrGate \<Rightarrow>
          c\<lparr>args := removeAll node (args c),
            type := (if length (removeAll node (args c)) = 1 then kNullGate else kOrGate)\<rparr>
      | kAtleastGate \<Rightarrow>
          c\<lparr>args := removeAll node (args c),
            type := (if int (length (removeAll node (args c))) = vote_number c
                     then kAndGate else kAtleastGate)\<rparr>
      | _ \<Rightarrow> c)"



text \<open>
  The traversals that mark the graph change the optimization values and the counts of
  failed arguments only: \<open>same_but_opti G G'\<close> says that two graphs are equal up to these
  two fields, and \<open>failure_extends G G'\<close> that moreover every node that is failed
  (\<open>opti_value\<close> 1) in \<open>G\<close> is failed in \<open>G'\<close>.
\<close>

definition clear_opti :: "Node \<Rightarrow> Node" where
  "clear_opti n = n\<lparr>opti_value := 0, num_failed_args := 0\<rparr>"

definition same_but_opti :: "BooleanGraph \<Rightarrow> BooleanGraph \<Rightarrow> bool" where
  "same_but_opti G G' \<longleftrightarrow>
     map (\<lambda>(i, n). (i, clear_opti n)) (nodes G') = map (\<lambda>(i, n). (i, clear_opti n)) (nodes G) \<and>
     root G' = root G \<and> held G' = held G \<and> next_index G' = next_index G"

definition failed_in :: "BooleanGraph \<Rightarrow> int \<Rightarrow> bool" where
  "failed_in G i = (case node_at G i of None \<Rightarrow> False | Some n \<Rightarrow> opti_value n = 1)"

definition failure_extends :: "BooleanGraph \<Rightarrow> BooleanGraph \<Rightarrow> bool" where
  "failure_extends G G' \<longleftrightarrow>
     same_but_opti G G' \<and> list_all (\<lambda>i. failed_in G i \<longrightarrow> failed_in G' i) (map fst (nodes G))"

text \<open>
  The multiplicity that a propagation of failure from \<open>G\<close> to \<open>G'\<close> adds, in the words of
  the specification with the restriction that the code makes: the sum of the numbers of
  parents of the nodes that failed in the propagation and have more than one parent.
\<close>

definition multiplicity :: "BooleanGraph \<Rightarrow> int \<Rightarrow> int" where
  "multiplicity G i =
     (case node_at G i of
        None \<Rightarrow> 0
      | Some n \<Rightarrow> if 1 < length (parents n) then int (length (parents n)) else 0)"

definition failed_multiplicity :: "BooleanGraph \<Rightarrow> BooleanGraph \<Rightarrow> int" where
  "failed_multiplicity G G' =
     (\<Sum>i \<in> set (map fst (nodes G')).
        if \<not> failed_in G i \<and> failed_in G' i then multiplicity G' i else 0)"













text \<open>
  Equivalence of two gates in the words of the specification: the same operator, the same
  signed arguments and, for ATLEAST gates only, the same vote number.
\<close>

definition equivalent :: "Node \<Rightarrow> Node \<Rightarrow> bool" where
  "equivalent a b \<longleftrightarrow>
     type a = type b \<and> args a = args b \<and> (type a = kAtleastGate \<longrightarrow> vote_number a = vote_number b)"



text \<open>
  Notions for the statements on the detection: graphs equal up to the marks of their nodes;
  marked gates; the original gates of all types and the registered duplicates; equivalence
  of two gates of a graph; and the gate that stands for a gate after the detection, which
  is the original gate under which it is registered or else the gate itself.
\<close>

definition clear_mark :: "Node \<Rightarrow> Node" where
  "clear_mark n = n\<lparr>mark := False\<rparr>"

definition same_but_mark :: "BooleanGraph \<Rightarrow> BooleanGraph \<Rightarrow> bool" where
  "same_but_mark G G' \<longleftrightarrow>
     map (\<lambda>(i, n). (i, clear_mark n)) (nodes G') = map (\<lambda>(i, n). (i, clear_mark n)) (nodes G) \<and>
     root G' = root G \<and> held G' = held G \<and> next_index G' = next_index G"








text \<open>
  The replacement of a reference in a parent with content \<open>c\<close>, in the words of the
  specification: the duplicate \<open>index\<close> leaves the arguments and the original gate joins
  them with the sign that the duplicate had, under the rules of \<open>add_arg\<close> (an argument that
  is present with the same sign is not added again; when it is present with the opposite
  sign, the gate becomes constant by its operator and loses its arguments).
\<close>

definition add_reference :: "int \<Rightarrow> Node \<Rightarrow> Node" where
  "add_reference a c =
     (if a \<in> set (args c) then c
      else if - a \<in> set (args c)
      then (if type c = kAndGate \<or> type c = kNorGate then c\<lparr>state := kNullState, args := []\<rparr>
            else if type c = kOrGate \<or> type c = kNandGate \<or> type c = kXorGate
            then c\<lparr>state := kUnityState, args := []\<rparr>
            else c)
      else c\<lparr>args := insort a (args c)\<rparr>)"

definition replace_reference :: "int \<Rightarrow> int \<Rightarrow> Node \<Rightarrow> Node" where
  "replace_reference orig_gate index c =
     (let sign = (if - index \<in> set (args c) then - 1 else 1)
      in add_reference (sign * orig_gate) (c\<lparr>args := removeAll (sign * index) (args c)\<rparr>))"


section \<open>Validation of gates\<close>

lemma GetAttribute_eq_Inr:
  "GetAttribute e a = Inr v \<longleftrightarrow> map_of (attributes e) a = Some v"
  by (simp add: GetAttribute_def split: option.splits)

lemma is_conditional_eq: "is_conditional a = conditional_basic_event a"
  by (cases a) (auto simp: conditional_basic_event_def HasAttribute_def GetAttribute_eq_Inr)

lemma inhibit_pattern_eq:
  "inhibit_pattern g \<longleftrightarrow>
     \<not> (formula_type (formula g) \<noteq> kAnd \<or> \<not> HasAttribute g ''flavor'' \<or>
        GetAttribute g ''flavor'' \<noteq> Inr ''inhibit'')"
  by (auto simp: inhibit_pattern_def HasAttribute_def GetAttribute_eq_Inr)

text \<open>
  Claim C10. \<open>Gate::Validate\<close> raises \<open>ValidationError\<close> for a gate in the inhibit pattern
  (AND formula, attribute flavor with value inhibit) unless the formula has exactly two
  arguments and exactly one of its arguments is a basic event with attribute flavor of
  value conditional; for every gate outside the inhibit pattern it returns without raising.
  In every case the outcome is either a \<open>ValidationError\<close> or a normal return.
\<close>

theorem Gate_Validate_inhibit:
  "(is_ValidationError (Gate_Validate g) \<longleftrightarrow>
      inhibit_pattern g \<and>
      \<not> (num_args (formula g) = 2 \<and>
         length (filter conditional_basic_event (event_args (formula g))) = 1)) \<and>
   (\<not> is_ValidationError (Gate_Validate g) \<longleftrightarrow> Gate_Validate g = Inr ()) \<and>
   (\<not> inhibit_pattern g \<longrightarrow> Gate_Validate g = Inr ())"
proof (cases "inhibit_pattern g")
  case True
  then have guard:
    "\<not> (formula_type (formula g) \<noteq> kAnd \<or> \<not> HasAttribute g ''flavor'' \<or>
        GetAttribute g ''flavor'' \<noteq> Inr ''inhibit'')"
    using inhibit_pattern_eq [of g] by blast
  have cond: "filter is_conditional xs = filter conditional_basic_event xs" for xs
    by (simp add: is_conditional_eq [abs_def])
  from True show ?thesis
    unfolding Gate_Validate_def if_not_P [OF guard] cond Let_def is_ValidationError_def
    by simp
next
  case False
  then have guard:
    "formula_type (formula g) \<noteq> kAnd \<or> \<not> HasAttribute g ''flavor'' \<or>
        GetAttribute g ''flavor'' \<noteq> Inr ''inhibit''"
    using inhibit_pattern_eq [of g] by blast
  from False show ?thesis
    unfolding Gate_Validate_def if_P [OF guard] is_ValidationError_def
    by simp
qed

theorem Gate_Validate_inhibit_witness:
  "\<not> inhibit_pattern
       \<lparr>name = ''g'', attributes = [(''flavor'', ''plain'')],
        formula = Formula kAnd 0 [GateArg ''a''] []\<rparr> \<and>
   Gate_Validate
       \<lparr>name = ''g'', attributes = [(''flavor'', ''plain'')],
        formula = Formula kAnd 0 [GateArg ''a''] []\<rparr> = Inr ()"
  using Gate_Validate_inhibit
    [of "\<lparr>name = ''g'', attributes = [(''flavor'', ''plain'')],
          formula = Formula kAnd 0 [GateArg ''a''] []\<rparr>"]
  by (simp add: inhibit_pattern_def)

section \<open>Cycle detection at input validation\<close>

lemma check_gate_cycles_none:
  "(\<forall>g \<in> set gs. detect g = None) \<Longrightarrow> check_gate_cycles detect print gs = Inr ()"
  by (induction gs) auto

lemma check_gate_cycles_first:
  "(\<forall>h \<in> set gs1. detect h = None) \<Longrightarrow> detect g = Some cycle \<Longrightarrow>
   check_gate_cycles detect print (gs1 @ g # gs2) =
     Inl (ValidationError
            ((''Detected a cycle in '' @ name g @ '' gate:'' @ [CHR 0x0A]) @ print cycle))"
  by (induction gs1) auto

lemma check_gate_cycles_error:
  "check_gate_cycles detect print gs = Inl e \<Longrightarrow> \<exists>msg. e = ValidationError msg"
  by (induction gs) (auto split: option.splits)

text \<open>
  Claim C7 as stated fails: on a model with a cycle \<open>CheckFirstLayer\<close> raises
  \<open>ValidationError\<close> with a message, not \<open>CycleError\<close> with the path. The model below has
  one gate that is its own argument.
\<close>

theorem CheckFirstLayer_cycle_counterexample:
  "CheckFirstLayer detect_self_loop print_arrows (Inr ()) \<lparr>probability_analysis = False\<rparr>
       looping_model =
     Inl (ValidationError (''Detected a cycle in top gate:'' @ [CHR 0x0A] @ ''top->top'')) \<and>
   CheckFirstLayer detect_self_loop print_arrows (Inr ()) \<lparr>probability_analysis = False\<rparr>
       looping_model \<noteq> Inl (CycleError [''top'', ''top''])"
  by (simp add: CheckFirstLayer_def looping_model_def detect_self_loop_def)

text \<open>
  Claim C7, amended. When cycle detection finds a cycle in a gate (and in no gate before it
  in the iteration over the model's gates), \<open>CheckFirstLayer\<close> raises \<open>ValidationError\<close>
  whose message is the text "Detected a cycle in NAME gate:", a newline and the printed
  cycle; the cycle check never raises any other kind of error; and when cycle detection
  finds no cycle in any gate, the cycle check raises nothing, so that \<open>CheckFirstLayer\<close>
  goes on to its checks of expressions.
\<close>

theorem CheckFirstLayer_cycle:
  "(gates m = gs1 @ g # gs2 \<and> (\<forall>h \<in> set gs1. detect h = None) \<and> detect g = Some cycle \<longrightarrow>
      CheckFirstLayer detect print validate_expressions settings m =
        Inl (ValidationError
               ((''Detected a cycle in '' @ name g @ '' gate:'' @ [CHR 0x0A]) @ print cycle))) \<and>
   (\<forall>e. check_gate_cycles detect print (gates m) = Inl e \<longrightarrow> (\<exists>msg. e = ValidationError msg)) \<and>
   ((\<forall>g \<in> set (gates m). detect g = None) \<longrightarrow>
      check_gate_cycles detect print (gates m) = Inr () \<and>
      CheckFirstLayer detect print validate_expressions settings m =
        (if probability_analysis settings \<and> missing_expressions m \<noteq> []
         then Inl (ValidationError
                ([CHR 0x0A] @ ''These primary events do not have expressions:'' @ [CHR 0x0A] @
                 missing_expressions m))
         else validate_expressions))"
proof (intro conjI impI allI)
  assume h: "gates m = gs1 @ g # gs2 \<and> (\<forall>h \<in> set gs1. detect h = None) \<and> detect g = Some cycle"
  then show "CheckFirstLayer detect print validate_expressions settings m =
        Inl (ValidationError
               ((''Detected a cycle in '' @ name g @ '' gate:'' @ [CHR 0x0A]) @ print cycle))"
    using check_gate_cycles_first [of gs1 detect g cycle print gs2]
    by (simp add: CheckFirstLayer_def)
next
  fix e assume "check_gate_cycles detect print (gates m) = Inl e"
  then show "\<exists>msg. e = ValidationError msg" by (rule check_gate_cycles_error)
next
  assume "\<forall>g \<in> set (gates m). detect g = None"
  then show "check_gate_cycles detect print (gates m) = Inr ()"
    by (rule check_gate_cycles_none)
next
  assume "\<forall>g \<in> set (gates m). detect g = None"
  then have "check_gate_cycles detect print (gates m) = Inr ()"
    by (rule check_gate_cycles_none)
  then show "CheckFirstLayer detect print validate_expressions settings m =
        (if probability_analysis settings \<and> missing_expressions m \<noteq> []
         then Inl (ValidationError
                ([CHR 0x0A] @ ''These primary events do not have expressions:'' @ [CHR 0x0A] @
                 missing_expressions m))
         else validate_expressions)"
    by (simp add: CheckFirstLayer_def Let_def)
qed

theorem CheckFirstLayer_cycle_witness:
  "gates looping_model =
     [] @ \<lparr>name = ''top'', attributes = [], formula = Formula kNull 0 [GateArg ''top''] []\<rparr> # [] \<and>
   detect_self_loop
     \<lparr>name = ''top'', attributes = [], formula = Formula kNull 0 [GateArg ''top''] []\<rparr> =
     Some [''top'', ''top''] \<and>
   CheckFirstLayer detect_self_loop print_arrows (Inr ()) \<lparr>probability_analysis = False\<rparr>
       looping_model =
     Inl (ValidationError (''Detected a cycle in top gate:'' @ [CHR 0x0A] @ ''top->top'')) \<and>
   check_gate_cycles detect_self_loop print_arrows (gates acyclic_model) = Inr () \<and>
   CheckFirstLayer detect_self_loop print_arrows (Inr ()) \<lparr>probability_analysis = True\<rparr>
       acyclic_model =
     Inl (ValidationError
            ([CHR 0x0A] @ ''These primary events do not have expressions:'' @ [CHR 0x0A] @
             ''e'' @ [CHR 0x0A]))"
  using
    CheckFirstLayer_cycle
      [of looping_model "[]"
          "\<lparr>name = ''top'', attributes = [], formula = Formula kNull 0 [GateArg ''top''] []\<rparr>"
          "[]" detect_self_loop "[''top'', ''top'']" print_arrows "Inr ()"
          "\<lparr>probability_analysis = False\<rparr>"]
    CheckFirstLayer_cycle
      [of acyclic_model "[]"
          "\<lparr>name = ''top'', attributes = [], formula = Formula kNull 0 [GateArg ''top''] []\<rparr>"
          "[]" detect_self_loop "[''top'', ''top'']" print_arrows "Inr ()"
          "\<lparr>probability_analysis = True\<rparr>"]
  by (simp add: looping_model_def acyclic_model_def detect_self_loop_def missing_expressions_def)

section \<open>Minimal cut sets from the ZBDD\<close>

lemma above_mono: "above b z \<Longrightarrow> c \<le> b \<Longrightarrow> above c z"
  by (cases z) auto

lemma above_ordered: "above b z \<Longrightarrow> ordered z"
  by (cases z) auto

lemma above_elems: "above b z \<Longrightarrow> s \<in> sets z \<Longrightarrow> x \<in> s \<Longrightarrow> b < x"
proof (induction z arbitrary: b s)
  case (SetNode v h l)
  then show ?case by (fastforce)
qed auto

lemma finite_sets: "finite (sets z)"
  by (induction z) auto

lemma finite_member: "s \<in> sets z \<Longrightarrow> finite s"
  by (induction z arbitrary: s) auto

lemma reduced_nonempty: "reduced z \<Longrightarrow> z \<noteq> Empty \<Longrightarrow> sets z \<noteq> {}"
  by (induction z) auto

lemma sets_make_node: "sets (make_node v h l) = insert v ` sets h \<union> sets l"
  by (simp add: make_node_def)

lemma reduced_make_node: "reduced h \<Longrightarrow> reduced l \<Longrightarrow> reduced (make_node v h l)"
  by (simp add: make_node_def)

lemma above_make_node: "b < v \<Longrightarrow> above v h \<Longrightarrow> above v l \<Longrightarrow> above b (make_node v h l)"
  by (auto simp add: make_node_def intro: above_mono)

lemma reduced_Subsume: "reduced H \<Longrightarrow> reduced (Subsume H L)"
  by (induction H L rule: Subsume.induct) (auto simp: reduced_make_node)

lemma above_Subsume: "above b H \<Longrightarrow> above b (Subsume H L)"
  by (induction H L arbitrary: b rule: Subsume.induct) (auto simp: above_make_node)


lemma antichain_subset: "antichain F \<Longrightarrow> G \<subseteq> F \<Longrightarrow> antichain G"
  by (auto simp: antichain_def)

lemma antichain_low: "antichain (sets (SetNode v h l)) \<Longrightarrow> antichain (sets l)"
  by (rule antichain_subset) auto

lemma antichain_high:
  assumes "antichain (sets (SetNode v h l))" and "above v h"
  shows "antichain (sets h)"
  unfolding antichain_def
proof (intro ballI notI)
  fix s t assume s: "s \<in> sets h" and t: "t \<in> sets h" and lt: "t \<subset> s"
  have "v \<notin> s" "v \<notin> t" using above_elems [OF assms(2)] s t by fastforce+
  then have "insert v t \<subset> insert v s" using lt by auto
  moreover have "insert v s \<in> sets (SetNode v h l)" "insert v t \<in> sets (SetNode v h l)"
    using s t by auto
  ultimately show False using assms(1) unfolding antichain_def by blast
qed

lemma no_empty_set:
  assumes "antichain (sets (SetNode v h l))" and "reduced (SetNode v h l)"
  shows "{} \<notin> sets (SetNode v h l)"
proof
  assume e: "{} \<in> sets (SetNode v h l)"
  from assms(2) have "sets h \<noteq> {}" by (simp add: reduced_nonempty)
  then obtain s where "s \<in> sets h" by blast
  then have "insert v s \<in> sets (SetNode v h l)" by simp
  moreover have "{} \<subset> insert v s" by auto
  ultimately show False using assms(1) e unfolding antichain_def by blast
qed

lemma Subsume_sets:
  "ordered H \<Longrightarrow> ordered L \<Longrightarrow> reduced L \<Longrightarrow> antichain (sets L) \<Longrightarrow>
   sets (Subsume H L) = {s \<in> sets H. \<forall>t \<in> sets L. \<not> t \<subseteq> s}"
proof (induction H L rule: Subsume.induct)
  case (1 high)
  then show ?case by simp
next
  case (2 high)
  then show ?case by simp
next
  case (3 w h' l')
  then show ?case by simp
next
  case (4 w h' l')
  then have "{} \<notin> sets (SetNode w h' l')" by (intro no_empty_set)
  then show ?case by auto
next
  case (5 v h l w h' l')
  let ?H = "SetNode v h l" and ?L = "SetNode w h' l'"
  have oh: "above v h" "above v l" and ol: "above w h'" "above w l'"
    using "5.prems" by auto
  have rl: "reduced h'" "reduced l'" using "5.prems" by auto
  have al: "antichain (sets l')" using "5.prems"(4) by (rule antichain_low)
  have ah: "antichain (sets h')" using "5.prems"(4) ol(1) by (rule antichain_high)
  have Hgt: "\<And>s x. s \<in> sets h \<Longrightarrow> x \<in> s \<Longrightarrow> v < x"
    and Hgt': "\<And>s x. s \<in> sets l \<Longrightarrow> x \<in> s \<Longrightarrow> v < x"
    using above_elems [OF oh(1)] above_elems [OF oh(2)] by blast+
  have Lgt: "\<And>s x. s \<in> sets h' \<Longrightarrow> x \<in> s \<Longrightarrow> w < x"
    and Lgt': "\<And>s x. s \<in> sets l' \<Longrightarrow> x \<in> s \<Longrightarrow> w < x"
    using above_elems [OF ol(1)] above_elems [OF ol(2)] by blast+
  show ?case
  proof (cases "w < v")
    case True
    have ih: "sets (Subsume ?H l') = {s \<in> sets ?H. \<forall>t \<in> sets l'. \<not> t \<subseteq> s}"
      using "5.IH"(1) [OF True "5.prems"(1) above_ordered [OF ol(2)] rl(2) al] .
    have "w \<notin> s" if "s \<in> sets ?H" for s
      using that True Hgt Hgt' by fastforce
    then have "\<not> insert w t \<subseteq> s" if "s \<in> sets ?H" for s t
      using that by blast
    then show ?thesis using True ih by auto
  next
    case False
    show ?thesis
    proof (cases "v = w")
      case True
      have ih1: "sets (Subsume h h') = {s \<in> sets h. \<forall>t \<in> sets h'. \<not> t \<subseteq> s}"
        using "5.IH"(2) [OF False True above_ordered [OF oh(1)] above_ordered [OF ol(1)] rl(1) ah] .
      have "ordered (Subsume h h')"
        using above_Subsume [OF oh(1)] by (rule above_ordered)
      then have ih2: "sets (Subsume (Subsume h h') l') =
          {s \<in> sets (Subsume h h'). \<forall>t \<in> sets l'. \<not> t \<subseteq> s}"
        using "5.IH"(3) [OF False True _ above_ordered [OF ol(2)] rl(2) al] by blast
      have ih3: "sets (Subsume l l') = {s \<in> sets l. \<forall>t \<in> sets l'. \<not> t \<subseteq> s}"
        using "5.IH"(4) [OF False True above_ordered [OF oh(2)] above_ordered [OF ol(2)] rl(2) al] .
      have nv: "v \<notin> s" if "s \<in> sets h \<union> sets l \<union> sets h' \<union> sets l'" for s
        using that True Hgt Hgt' Lgt Lgt' by fastforce
      have a: "insert v t \<subseteq> insert v s \<longleftrightarrow> t \<subseteq> s" if "t \<in> sets h'" "s \<in> sets h" for s t
        using nv that by blast
      have b: "t \<subseteq> insert v s \<longleftrightarrow> t \<subseteq> s" if "t \<in> sets l'" for s t
        using nv that by blast
      have c: "\<not> insert v t \<subseteq> s" if "s \<in> sets l" for s t
        using nv that by blast
      have "sets (Subsume ?H ?L) =
          insert v ` {s \<in> sets h. (\<forall>t \<in> sets h'. \<not> t \<subseteq> s) \<and> (\<forall>t \<in> sets l'. \<not> t \<subseteq> s)} \<union>
          {s \<in> sets l. \<forall>t \<in> sets l'. \<not> t \<subseteq> s}"
        using False True by (simp add: sets_make_node ih1 ih2 ih3)
      also have "\<dots> = {s \<in> sets ?H. \<forall>t \<in> sets ?L. \<not> t \<subseteq> s}"
        using True a b c by (auto simp: ball_Un)
      finally show ?thesis .
    next
      case neq: False
      with False have lt: "v < w" by simp
      have ih1: "sets (Subsume h ?L) = {s \<in> sets h. \<forall>t \<in> sets ?L. \<not> t \<subseteq> s}"
        using "5.IH"(5) [OF False neq above_ordered [OF oh(1)] "5.prems"(2,3,4)] .
      have ih2: "sets (Subsume l ?L) = {s \<in> sets l. \<forall>t \<in> sets ?L. \<not> t \<subseteq> s}"
        using "5.IH"(6) [OF False neq above_ordered [OF oh(2)] "5.prems"(2,3,4)] .
      define F where "F = sets ?L"
      have nv: "v \<notin> t" if "t \<in> F" for t
        using that lt Lgt Lgt' unfolding F_def by fastforce
      then have b: "t \<subseteq> insert v s \<longleftrightarrow> t \<subseteq> s" if "t \<in> F" for s t
        using that by blast
      have "sets (Subsume ?H ?L) =
          insert v ` {s \<in> sets h. \<forall>t \<in> F. \<not> t \<subseteq> s} \<union>
          {s \<in> sets l. \<forall>t \<in> F. \<not> t \<subseteq> s}"
        using False neq ih1 ih2 unfolding F_def by (simp add: sets_make_node)
      also have "\<dots> = {s \<in> insert v ` sets h \<union> sets l. \<forall>t \<in> F. \<not> t \<subseteq> s}"
        using b by auto
      finally show ?thesis unfolding F_def by simp
    qed
  qed
qed


lemma antichain_minimal_sets: "antichain (minimal_sets F)"
  by (auto simp: antichain_def minimal_sets_def)

lemma minimal_below:
  assumes "finite s" and "s \<in> F"
  shows "\<exists>t \<in> minimal_sets F. t \<subseteq> s"
  using assms
proof (induction s rule: finite_psubset_induct)
  case (psubset A)
  show ?case
  proof (cases "\<exists>t \<in> F. t \<subset> A")
    case True
    then obtain t where t: "t \<in> F" "t \<subset> A" by blast
    from psubset.IH [OF t(2) t(1)] obtain u where "u \<in> minimal_sets F" "u \<subseteq> t" by blast
    with t(2) show ?thesis by blast
  next
    case False
    with psubset.prems have "A \<in> minimal_sets F" by (simp add: minimal_sets_def)
    then show ?thesis by blast
  qed
qed

lemma reduced_Minimize: "reduced (Minimize z)"
  by (induction z) (auto simp: reduced_make_node reduced_Subsume)

lemma above_Minimize: "above b z \<Longrightarrow> above b (Minimize z)"
  by (induction z arbitrary: b) (auto simp: above_make_node above_Subsume)

lemma minimal_sets_node:
  assumes nv: "\<And>s. s \<in> Fh \<union> Fl \<Longrightarrow> v \<notin> s" and fin: "\<And>s. s \<in> Fl \<Longrightarrow> finite s"
  shows "minimal_sets (insert v ` Fh \<union> Fl) =
         insert v ` {s \<in> minimal_sets Fh. \<forall>t \<in> minimal_sets Fl. \<not> t \<subseteq> s} \<union> minimal_sets Fl"
    (is "?lhs = ?rhs")
proof (intro set_eqI iffI)
  fix x assume x: "x \<in> ?lhs"
  then have xin: "x \<in> insert v ` Fh \<union> Fl"
    and xmin: "\<And>t. t \<in> insert v ` Fh \<union> Fl \<Longrightarrow> \<not> t \<subset> x"
    by (auto simp: minimal_sets_def)
  from xin show "x \<in> ?rhs"
  proof
    assume "x \<in> insert v ` Fh"
    then obtain s where s: "s \<in> Fh" "x = insert v s" by blast
    have vs: "v \<notin> s" using nv s(1) by blast
    have "\<not> t \<subset> s" if "t \<in> Fh" for t
    proof
      assume "t \<subset> s"
      moreover have "v \<notin> t" using nv that by blast
      ultimately have "insert v t \<subset> insert v s" using vs by auto
      then show False using xmin [of "insert v t"] that s(2) by blast
    qed
    then have "s \<in> minimal_sets Fh" using s(1) by (simp add: minimal_sets_def)
    moreover have "\<not> t \<subseteq> s" if "t \<in> minimal_sets Fl" for t
    proof
      assume "t \<subseteq> s"
      then have "t \<subset> insert v s" using vs by blast
      moreover have "t \<in> Fl" using that by (simp add: minimal_sets_def)
      ultimately show False using xmin [of t] s(2) by blast
    qed
    ultimately show ?thesis using s(2) by blast
  next
    assume xl: "x \<in> Fl"
    then have "x \<in> minimal_sets Fl" using xmin by (simp add: minimal_sets_def)
    then show ?thesis by blast
  qed
next
  fix x assume "x \<in> ?rhs"
  then show "x \<in> ?lhs"
  proof
    assume "x \<in> insert v ` {s \<in> minimal_sets Fh. \<forall>t \<in> minimal_sets Fl. \<not> t \<subseteq> s}"
    then obtain s where s: "s \<in> minimal_sets Fh" "\<forall>t \<in> minimal_sets Fl. \<not> t \<subseteq> s"
      and x: "x = insert v s" by blast
    have sh: "s \<in> Fh" and smin: "\<And>t. t \<in> Fh \<Longrightarrow> \<not> t \<subset> s"
      using s(1) by (auto simp: minimal_sets_def)
    have vs: "v \<notin> s" using nv sh by blast
    have "\<not> t \<subset> x" if t: "t \<in> insert v ` Fh \<union> Fl" for t
    proof
      assume lt: "t \<subset> x"
      from t show False
      proof
        assume "t \<in> insert v ` Fh"
        then obtain u where u: "u \<in> Fh" "t = insert v u" by blast
        have "v \<notin> u" using nv u(1) by blast
        then have "u \<subset> s" using lt u(2) x vs by blast
        then show False using smin u(1) by blast
      next
        assume tl: "t \<in> Fl"
        then have "v \<notin> t" using nv by blast
        then have ts: "t \<subseteq> s" using lt x by blast
        from minimal_below [OF fin [OF tl] tl] obtain u where "u \<in> minimal_sets Fl" "u \<subseteq> t"
          by blast
        then show False using s(2) ts by blast
      qed
    qed
    then show ?thesis using sh x by (simp add: minimal_sets_def)
  next
    assume xl: "x \<in> minimal_sets Fl"
    then have xin: "x \<in> Fl" and xmin: "\<And>t. t \<in> Fl \<Longrightarrow> \<not> t \<subset> x"
      by (auto simp: minimal_sets_def)
    have vx: "v \<notin> x" using nv xin by blast
    have "\<not> t \<subset> x" if t: "t \<in> insert v ` Fh \<union> Fl" for t
      using t vx xmin by blast
    then show ?thesis using xin by (simp add: minimal_sets_def)
  qed
qed

lemma Minimize_sets: "ordered z \<Longrightarrow> sets (Minimize z) = minimal_sets (sets z)"
proof (induction z)
  case Empty
  then show ?case by (simp add: minimal_sets_def)
next
  case Base
  then show ?case by (auto simp: minimal_sets_def)
next
  case (SetNode v h l)
  then have oh: "above v h" and ol: "above v l" by auto
  have ih1: "sets (Minimize h) = minimal_sets (sets h)"
    using SetNode.IH(1) above_ordered [OF oh] by blast
  have ih2: "sets (Minimize l) = minimal_sets (sets l)"
    using SetNode.IH(2) above_ordered [OF ol] by blast
  have sub: "sets (Subsume (Minimize h) (Minimize l)) =
      {s \<in> minimal_sets (sets h). \<forall>t \<in> minimal_sets (sets l). \<not> t \<subseteq> s}"
    using Subsume_sets [of "Minimize h" "Minimize l"]
      above_ordered [OF above_Minimize [OF oh]] above_ordered [OF above_Minimize [OF ol]]
      reduced_Minimize [of l] antichain_minimal_sets [of "sets l"]
    by (simp add: ih1 ih2)
  have nv: "v \<notin> s" if "s \<in> sets h \<union> sets l" for s
    using that above_elems [OF oh] above_elems [OF ol] by fastforce
  show ?case
    using minimal_sets_node [of "sets h" "sets l" v, OF nv finite_member]
    by (simp add: sets_make_node sub ih2)
qed

lemma GenerateCutSets_sets: "set ` set (GenerateCutSets z) = sets z"
proof (induction z)
  case (SetNode v h l)
  have "set ` set (GenerateCutSets (SetNode v h l)) =
      insert v ` (set ` set (GenerateCutSets h)) \<union> set ` set (GenerateCutSets l)"
    by (simp add: image_Un image_image)
  then show ?case by (simp add: SetNode.IH)
qed simp_all

text \<open>
  Claim C1. On an ordered ZBDD, the family of sets denoted by the result of \<open>Minimize\<close> is
  subset-minimal: no set of the family has a proper subset in the family; the family is
  exactly the family of the minimal sets of the input; and the list of cut sets generated
  from the result has no member with a proper subset among the members.
\<close>

theorem Minimize_cut_sets_minimal:
  assumes "ordered z"
  shows "(\<forall>A \<in> sets (Minimize z). \<forall>B \<in> sets (Minimize z). \<not> B \<subset> A) \<and>
         sets (Minimize z) = minimal_sets (sets z) \<and>
         (\<forall>A \<in> set (GenerateCutSets (Minimize z)).
            \<forall>B \<in> set (GenerateCutSets (Minimize z)). \<not> set B \<subset> set A)"
proof (intro conjI ballI)
  show eq: "sets (Minimize z) = minimal_sets (sets z)"
    using assms by (rule Minimize_sets)
  have anti: "antichain (sets (Minimize z))"
    unfolding eq by (rule antichain_minimal_sets)
  {
    fix A B assume "A \<in> sets (Minimize z)" "B \<in> sets (Minimize z)"
    then show "\<not> B \<subset> A" using anti by (simp add: antichain_def)
  }
  {
    fix A B
    assume "A \<in> set (GenerateCutSets (Minimize z))" "B \<in> set (GenerateCutSets (Minimize z))"
    then have "set A \<in> sets (Minimize z)" "set B \<in> sets (Minimize z)"
      using GenerateCutSets_sets [of "Minimize z"] by blast+
    then show "\<not> set B \<subset> set A" using anti by (simp add: antichain_def)
  }
qed

theorem Minimize_cut_sets_minimal_witness:
  "ordered (SetNode 1 (SetNode 2 Base Base) (SetNode 2 Base Empty)) \<and>
   GenerateCutSets (Minimize (SetNode 1 (SetNode 2 Base Base) (SetNode 2 Base Empty))) =
     [[1], [2]] \<and>
   \<not> set [2 :: int] \<subset> set [1] \<and> \<not> set [1 :: int] \<subset> set [2]"
proof -
  have o: "ordered (SetNode 1 (SetNode 2 Base Base) (SetNode 2 Base Empty))" by simp
  have g: "GenerateCutSets (Minimize (SetNode 1 (SetNode 2 Base Base) (SetNode 2 Base Empty))) =
     [[1], [2]]"
    by (simp add: make_node_def)
  have "\<forall>A \<in> set [[1 :: int], [2]]. \<forall>B \<in> set [[1], [2]]. \<not> set B \<subset> set A"
    using Minimize_cut_sets_minimal [OF o] unfolding g by blast
  then have "\<not> set [2 :: int] \<subset> set [1]" "\<not> set [1 :: int] \<subset> set [2]"
    by simp_all
  with o g show ?thesis by blast
qed

section \<open>Frame properties of the graph operations\<close>

lemma node_at_upd_node:
  "node_at (upd_node c f G) i = (if i = c then map_option f (node_at G i) else node_at G i)"
proof -
  have "map_of (map (\<lambda>(k, n). if k = c then (k, f n) else (k, n)) xs) i =
        (if i = c then map_option f (map_of xs i) else map_of xs i)" for xs
    by (induction xs) auto
  from this [of "nodes G"] show ?thesis by (simp add: node_at_def upd_node_def)
qed

lemma node_at_del_node: "node_at (del_node c G) i = (if i = c then None else node_at G i)"
proof -
  have "map_of (filter (\<lambda>(k, n). k \<noteq> c) xs) i = (if i = c then None else map_of xs i)" for xs
    by (induction xs) auto
  from this [of "nodes G"] show ?thesis by (simp add: node_at_def del_node_def)
qed

lemma root_del_node [simp]: "root (del_node i G) = root G"
  by (simp add: del_node_def)

lemma held_del_node [simp]: "held (del_node i G) = held G"
  by (simp add: del_node_def)

lemma root_fold_upd [simp]: "root (fold (\<lambda>c. upd_node c (f c)) cs G) = root G"
  by (induction cs arbitrary: G) simp_all

lemma held_fold_upd [simp]: "held (fold (\<lambda>c. upd_node c (f c)) cs G) = held G"
  by (induction cs arbitrary: G) simp_all

lemma same_but_parents_refl [simp]: "same_but_parents n n"
  by (simp add: same_but_parents_def)

lemma same_but_parents_trans:
  "same_but_parents a b \<Longrightarrow> same_but_parents b c \<Longrightarrow> same_but_parents a c"
  unfolding same_but_parents_def by (metis Node.surjective Node.update_convs(2))

lemma same_but_parents_remove [simp]: "same_but_parents n (remove_parent p n)"
  by (simp add: same_but_parents_def remove_parent_def)

lemma same_but_parents_fields:
  "same_but_parents n n' \<Longrightarrow>
   kind n' = kind n \<and> type n' = type n \<and> state n' = state n \<and> vote_number n' = vote_number n \<and>
   args n' = args n \<and> mark n' = mark n \<and> opti_value n' = opti_value n \<and>
   const_state n' = const_state n \<and> num_failed_args n' = num_failed_args n"
  unfolding same_but_parents_def
  by (metis Node.select_convs(1,3,4,5,6,7,8,9,10) Node.surjective Node.update_convs(2))

lemma node_at_fold_remove:
  "node_at G i = Some n \<Longrightarrow>
   \<exists>n'. node_at (fold (\<lambda>c. upd_node c (remove_parent p)) cs G) i = Some n' \<and>
        same_but_parents n n'"
proof (induction cs arbitrary: G n)
  case Nil
  then show ?case by simp
next
  case (Cons c cs)
  have "\<exists>m. node_at (upd_node c (remove_parent p) G) i = Some m \<and> same_but_parents n m"
    using Cons.prems by (cases "i = c") (simp_all add: node_at_upd_node)
  then obtain m where m: "node_at (upd_node c (remove_parent p) G) i = Some m"
    "same_but_parents n m" by blast
  from Cons.IH [OF m(1)] m(2) show ?case
    by (auto intro: same_but_parents_trans)
qed

lemma release_keeps:
  "node_at G i = Some n \<Longrightarrow>
   i \<in> set keep \<or> i = root G \<or> kind n \<noteq> kGate \<or> i \<in> set (held G) \<Longrightarrow>
   \<exists>n'. node_at (release keep w G) i = Some n' \<and> same_but_parents n n'"
proof (induction keep w G arbitrary: n rule: release.induct)
  case (1 keep G)
  then show ?case by (auto simp: release.simps)
next
  case (2 keep j w G)
  show ?case
  proof (cases "node_at G j")
    case None
    then show ?thesis using 2 by (simp add: release.simps)
  next
    case (Some m)
    show ?thesis
    proof (cases "kind m \<noteq> kGate \<or> parents m \<noteq> [] \<or> j = root G \<or> j \<in> set keep \<or>
        j \<in> set (held G)")
      case True
      then show ?thesis using 2 Some by (simp add: release.simps)
    next
      case False
      let ?G = "fold (\<lambda>c. upd_node c (remove_parent j)) (map abs (args m)) (del_node j G)"
      from False "2.prems" Some have ij: "i \<noteq> j" by auto
      then have "node_at (del_node j G) i = Some n"
        using "2.prems"(1) by (simp add: node_at_del_node)
      from node_at_fold_remove [OF this] obtain n1 where
        n1: "node_at ?G i = Some n1" "same_but_parents n n1" by blast
      have k: "i \<in> set keep \<or> i = root ?G \<or> kind n1 \<noteq> kGate \<or> i \<in> set (held ?G)"
        using "2.prems"(2) same_but_parents_fields [OF n1(2)] by auto
      from "2.IH"(3) [OF Some False n1(1) k] n1(2) False Some show ?thesis
        by (auto simp: release.simps intro: same_but_parents_trans)
    qed
  qed
qed

lemma EraseAllArgs_gate:
  assumes "node_at G g = Some n"
  shows "\<exists>n'. node_at (EraseAllArgs g G) g = Some n' \<and> same_but_parents (n\<lparr>args := []\<rparr>) n'"
proof -
  let ?G1 = "upd_node g (\<lambda>n. n\<lparr>args := []\<rparr>) G"
  have "node_at ?G1 g = Some (n\<lparr>args := []\<rparr>)"
    using assms by (simp add: node_at_upd_node)
  from node_at_fold_remove [OF this, of g "map abs (args n)"] obtain n1 where
    n1: "node_at (fold (\<lambda>c. upd_node c (remove_parent g)) (map abs (args n)) ?G1) g = Some n1"
    "same_but_parents (n\<lparr>args := []\<rparr>) n1" by blast
  from release_keeps [OF n1(1), of "[g]" "map abs (args n)"] obtain n2 where
    "node_at (release [g] (map abs (args n))
       (fold (\<lambda>c. upd_node c (remove_parent g)) (map abs (args n)) ?G1)) g = Some n2"
    "same_but_parents n1 n2" by auto
  then show ?thesis
    using assms n1(2) by (auto simp: EraseAllArgs_def intro: same_but_parents_trans)
qed

lemma Nullify_gate:
  assumes "gate_of G g = Some n"
  shows "\<exists>n'. gate_of (Nullify g G) g = Some n' \<and> state n' = kNullState \<and> args n' = [] \<and>
              type n' = type n \<and> vote_number n' = vote_number n"
proof -
  from assms have n: "node_at G g = Some n" "kind n = kGate"
    by (auto simp: gate_of_def split: option.splits if_splits)
  have "node_at (upd_node g (\<lambda>n. n\<lparr>state := kNullState\<rparr>) G) g = Some (n\<lparr>state := kNullState\<rparr>)"
    using n by (simp add: node_at_upd_node)
  from EraseAllArgs_gate [OF this] obtain n' where
    "node_at (Nullify g G) g = Some n'" "same_but_parents (n\<lparr>state := kNullState, args := []\<rparr>) n'"
    by (auto simp: Nullify_def)
  then show ?thesis
    using n(2) same_but_parents_fields [of "n\<lparr>state := kNullState, args := []\<rparr>" n']
    by (simp add: gate_of_def)
qed

lemma MakeUnity_gate:
  assumes "gate_of G g = Some n"
  shows "\<exists>n'. gate_of (MakeUnity g G) g = Some n' \<and> state n' = kUnityState \<and> args n' = [] \<and>
              type n' = type n \<and> vote_number n' = vote_number n"
proof -
  from assms have n: "node_at G g = Some n" "kind n = kGate"
    by (auto simp: gate_of_def split: option.splits if_splits)
  have "node_at (upd_node g (\<lambda>n. n\<lparr>state := kUnityState\<rparr>) G) g = Some (n\<lparr>state := kUnityState\<rparr>)"
    using n by (simp add: node_at_upd_node)
  from EraseAllArgs_gate [OF this] obtain n' where
    "node_at (MakeUnity g G) g = Some n'" "same_but_parents (n\<lparr>state := kUnityState, args := []\<rparr>) n'"
    by (auto simp: MakeUnity_def)
  then show ?thesis
    using n(2) same_but_parents_fields [of "n\<lparr>state := kUnityState, args := []\<rparr>" n']
    by (simp add: gate_of_def)
qed

lemma gate_of_set_type:
  "gate_of G g = Some n \<Longrightarrow> gate_of (set_type g t G) g = Some (n\<lparr>type := t\<rparr>)"
  by (auto simp: gate_of_def set_type_def node_at_upd_node split: option.splits if_splits)

lemma gate_of_set_vote_number:
  "gate_of G g = Some n \<Longrightarrow> gate_of (set_vote_number g k G) g = Some (n\<lparr>vote_number := k\<rparr>)"
  by (auto simp: gate_of_def set_vote_number_def node_at_upd_node split: option.splits if_splits)

section \<open>Constant arguments\<close>

lemma observed_constant:
  "gate_of G' gate = Some n' \<Longrightarrow> state n' = c \<Longrightarrow> c \<noteq> kNormalState \<Longrightarrow> args n' = [] \<Longrightarrow>
   observed_action gate arg to_erase (Some (True, to_erase, G')) = Some (BecomeConstant c)"
  by (simp add: observed_action_def)

lemma observed_erase:
  "gate_of G' gate = Some n' \<Longrightarrow> state n' = kNormalState \<Longrightarrow>
   observed_action gate arg to_erase (Some (False, to_erase @ [arg], G')) =
     Some (EraseArgument (type n') (vote_number n'))"
  by (simp add: observed_action_def)

text \<open>
  Claim C2, amended. For a parent gate in Normal state and a constant argument with
  effective state \<open>st\<close>, \<open>ProcessConstantArg\<close> performs the action of the table
  \<open>constant_arg_table\<close>: OR and NOR parents erase a False argument and become Unity (OR) or
  Null (NOR) on True; AND and NAND parents become Null (AND) or Unity (NAND) on False and
  erase a True argument; NOT parents become Unity on False and Null on True; NULL parents
  become Null on False and Unity on True; XOR parents erase a False argument and on a True
  argument turn into NOT of the other argument, or become Unity if the other argument is
  already queued for erasure; ATLEAST parents erase the argument, on False turning into AND
  when the remaining number of arguments equals \<open>k\<close>, and on True decrementing \<open>k\<close> and
  turning into OR when \<open>k\<close> reaches 1. In a build with assertions the statement is for the
  calls in which the assertions of the function hold.
\<close>

theorem ProcessConstantArg_table:
  assumes g: "gate_of G gate = Some n" and normal: "state n = kNormalState"
    and asserts: "dbg \<longrightarrow> constant_arg_asserts n st to_erase"
  shows "observed_action gate arg to_erase (ProcessConstantArg dbg gate arg st to_erase G) =
           Some (constant_arg_table (type n) (vote_number n) (length (args n)) (length to_erase) st)"
proof -
  from Nullify_gate [OF g] obtain n0 where
    n0: "gate_of (Nullify gate G) gate = Some n0" "state n0 = kNullState" "args n0 = []" by blast
  from MakeUnity_gate [OF g] obtain n1 where
    n1: "gate_of (MakeUnity gate G) gate = Some n1" "state n1 = kUnityState" "args n1 = []" by blast
  have null: "observed_action gate arg to_erase (Some (True, to_erase, Nullify gate G)) =
      Some (BecomeConstant kNullState)"
    using observed_constant [OF n0(1,2) _ n0(3)] by simp
  have unity: "observed_action gate arg to_erase (Some (True, to_erase, MakeUnity gate G)) =
      Some (BecomeConstant kUnityState)"
    using observed_constant [OF n1(1,2) _ n1(3)] by simp
  have keep: "observed_action gate arg to_erase (Some (False, to_erase @ [arg], G)) =
      Some (EraseArgument (type n) (vote_number n))"
    using observed_erase [OF g normal] .
  have retype: "observed_action gate arg to_erase (Some (False, to_erase @ [arg], set_type gate t G)) =
      Some (EraseArgument t (vote_number n))" for t
    using observed_erase [OF gate_of_set_type [OF g, of t]] normal by simp
  have revote: "observed_action gate arg to_erase
        (Some (False, to_erase @ [arg], set_vote_number gate k G)) =
      Some (EraseArgument (type n) k)" for k
    using observed_erase [OF gate_of_set_vote_number [OF g, of k]] normal by simp
  have both: "observed_action gate arg to_erase
        (Some (False, to_erase @ [arg], set_vote_number gate k (set_type gate t G))) =
      Some (EraseArgument t k)" for k t
    using observed_erase [OF gate_of_set_vote_number [OF gate_of_set_type [OF g, of t], of k]] normal
    by simp
  show ?thesis
  proof (cases st)
    case False
    then show ?thesis
      using g null unity keep retype
      by (cases "type n") (simp_all add: ProcessConstantArg_def constant_arg_table_def Let_def)
  next
    case True
    show ?thesis
    proof (cases "type n")
      case kXorGate
      have a: "assert_that dbg (length (args n) = 2) = Some ()"
        "length to_erase \<noteq> 1 \<Longrightarrow> assert_that dbg (to_erase = []) = Some ()"
        using asserts True kXorGate by (auto simp: assert_that_def constant_arg_asserts_def)
      show ?thesis
        using g True kXorGate unity retype [of kNotGate] a
        by (simp add: ProcessConstantArg_def constant_arg_table_def)
    next
      case kAtleastGate
      have a: "assert_that dbg (vote_number n - 1 > 1) = Some ()"
        using asserts True kAtleastGate by (auto simp: assert_that_def constant_arg_asserts_def)
      show ?thesis
      proof (cases "vote_number n - 1 = 1")
        case one: True
        then have "vote_number n = 2" by simp
        then show ?thesis
          using g True kAtleastGate a both [of 1 kOrGate]
          by (simp add: ProcessConstantArg_def constant_arg_table_def Let_def)
      next
        case False
        then show ?thesis
          using g True kAtleastGate a revote [of "vote_number n - 1"]
          by (simp add: ProcessConstantArg_def constant_arg_table_def Let_def)
      qed
    qed (use g True null unity keep in
          \<open>simp_all add: ProcessConstantArg_def constant_arg_table_def\<close>)
  qed
qed

lemmas graph_eval =
  release.simps gate_of_def node_at_def example_gate_def example_leaf_def Nullify_def MakeUnity_def
  EraseAllArgs_def EraseArg_def upd_node_def del_node_def remove_parent_def set_type_def
  set_vote_number_def assert_that_def

text \<open>
  Claim C2 as stated fails for NULL parents: a NULL parent with a False argument becomes
  Null, not Unity (a NULL gate passes its argument through).
\<close>

theorem ProcessConstantArg_null_counterexample:
  "observed_action 10 1 [] (ProcessConstantArg True 10 1 False [] null_parent_graph) =
     Some (BecomeConstant kNullState) \<and>
   observed_action 10 1 [] (ProcessConstantArg True 10 1 False [] null_parent_graph) \<noteq>
     Some (BecomeConstant kUnityState)"
  by (simp add: ProcessConstantArg_def observed_action_def null_parent_graph_def graph_eval)

theorem ProcessConstantArg_table_witness:
  "gate_of atleast_parent_graph 10 = Some (example_gate kAtleastGate 2 [1, 2, 3] []) \<and>
   state (example_gate kAtleastGate 2 [1, 2, 3] []) = kNormalState \<and>
   observed_action 10 1 [] (ProcessConstantArg False 10 1 True [] atleast_parent_graph) =
     Some (EraseArgument kOrGate 1)"
proof -
  have g: "gate_of atleast_parent_graph 10 = Some (example_gate kAtleastGate 2 [1, 2, 3] [])"
    by (simp add: atleast_parent_graph_def graph_eval)
  have s: "state (example_gate kAtleastGate 2 [1, 2, 3] []) = kNormalState"
    by (simp add: example_gate_def)
  have a: "False \<longrightarrow> constant_arg_asserts (example_gate kAtleastGate 2 [1, 2, 3] []) True []"
    by simp
  from ProcessConstantArg_table [OF g s a, of 1] g s show ?thesis
    by (simp add: constant_arg_table_def example_gate_def)
qed

section \<open>The root of the graph after the removal of NULL gates\<close>

lemma gate_of_root_update [simp]: "gate_of (G\<lparr>root := r\<rparr>) i = gate_of G i"
  by (simp add: gate_of_def node_at_def)

lemma node_at_root_update [simp]: "node_at (G\<lparr>root := r\<rparr>) i = node_at G i"
  by (simp add: node_at_def)

text \<open>
  Claim C9. In \<open>ProcessFaultTree\<close>, when after the removal of constants and NULL gates the
  root is a gate of NULL type in Normal state whose single argument is a gate (whose only
  parent is the root), the root pointer of the graph is replaced by that argument gate, the
  root sign is multiplied by \<open>-1\<close> exactly when the argument edge was negative, the old root
  (which no running function holds) is discarded, the new root has no parents, and no other
  node changes. \<open>ProcessFaultTree\<close>
  carries on; in a build with assertions it does so when the argument is of AND or OR type.
\<close>

theorem ProcessFaultTree_null_root:
  assumes root: "gate_of (graph P) (root (graph P)) = Some rn"
    and normal: "state rn = kNormalState" and null: "type rn = kNullGate"
    and single: "args rn = [a]" and orphan: "parents rn = []"
    and arg: "gate_of (graph P) (abs a) = Some an"
    and link: "parents an = [root (graph P)]"
    and nz: "a \<noteq> 0" and neq: "abs a \<noteq> root (graph P)"
    and unheld: "root (graph P) \<notin> set (held (graph P))"
    and asserts: "dbg \<longrightarrow> type an = kOrGate \<or> type an = kAndGate"
  shows "\<exists>P' an'. ProcessFaultTree_root dbg P = Some (False, P') \<and>
           root (graph P') = abs a \<and>
           root_sign P' = (if a < 0 then - root_sign P else root_sign P) \<and>
           node_at (graph P') (root (graph P)) = None \<and>
           gate_of (graph P') (abs a) = Some an' \<and> parents an' = [] \<and>
           same_but_parents an an' \<and>
           (\<forall>i. i \<noteq> root (graph P) \<and> i \<noteq> abs a \<longrightarrow>
                node_at (graph P') i = node_at (graph P) i)"
proof -
  let ?G = "graph P" and ?r = "root (graph P)"
  let ?Gr = "?G\<lparr>root := abs a\<rparr>"
  let ?Gd = "upd_node (abs a) (remove_parent ?r) (del_node ?r ?Gr)"
  from root have rn: "node_at ?G ?r = Some rn" "kind rn = kGate"
    by (auto simp: gate_of_def split: option.splits if_splits)
  from arg have an: "node_at ?G (abs a) = Some an" "kind an = kGate"
    by (auto simp: gate_of_def split: option.splits if_splits)
  have an1: "node_at ?Gd (abs a) = Some (remove_parent ?r an)"
    using an neq by (simp add: node_at_upd_node node_at_del_node)
  have rn0: "node_at ?Gr ?r = Some rn" using rn(1) by simp
  have s1: "release [] [?r] ?Gr = release [] [abs a] ?Gd"
    using neq unheld by (simp add: release.simps(2) [of "[]" ?r "[]" ?Gr] rn orphan single)
  have s2: "release [] [abs a] ?Gd = ?Gd"
    by (simp add: release.simps(2) [of "[]" "abs a" "[]" ?Gd] release.simps(1) an1)
  have rel: "release [] [?r] ?Gr = ?Gd"
    using s1 s2 by simp
  have ga: "gate_args ?G rn = [a]"
    using single arg by (simp add: gate_args_def)
  have g1: "gate_of ?Gd (abs a) = Some (remove_parent ?r an)"
    using an1 an(2) by (simp add: gate_of_def remove_parent_def)
  have p1: "parents (remove_parent ?r an) = []"
    using link by (simp add: remove_parent_def)
  have t1: "type (remove_parent ?r an) = type an"
    by (simp add: remove_parent_def)
  have a1: "assert_that dbg (parents (remove_parent ?r an) = []) = Some ()"
    "assert_that dbg (type (remove_parent ?r an) = kOrGate \<or>
        type (remove_parent ?r an) = kAndGate) = Some ()"
    using p1 t1 asserts by (auto simp: assert_that_def)
  have a0: "assert_that dbg (length (args rn) = Suc 0) = Some ()"
    using single by (simp add: assert_that_def)
  have run: "ProcessFaultTree_root dbg P =
      Some (False, P\<lparr>graph := ?Gd, root_sign := root_sign P * (if a > 0 then 1 else - 1)\<rparr>)"
    unfolding ProcessFaultTree_root_def Let_def
    by (simp add: root normal null ga rel g1 a0 a1 split del: if_split)
  have sign: "root_sign P * (if a > 0 then 1 else - 1) =
      (if a < 0 then - root_sign P else root_sign P)"
    using nz by simp
  have frame: "\<forall>i. i \<noteq> ?r \<and> i \<noteq> abs a \<longrightarrow> node_at ?Gd i = node_at ?G i"
    by (simp add: node_at_upd_node node_at_del_node)
  have gone: "node_at ?Gd ?r = None"
    using neq by (simp add: node_at_upd_node node_at_del_node)
  show ?thesis
    unfolding run sign
    using g1 p1 frame gone by simp
qed


theorem ProcessFaultTree_null_root_witness:
  "\<exists>P'. ProcessFaultTree_root True null_root_preprocessor = Some (False, P') \<and>
        root (graph P') = 11 \<and> root_sign P' = - 1 \<and> node_at (graph P') 10 = None \<and>
        map_option parents (gate_of (graph P') 11) = Some []"
proof -
  have "\<exists>P' an'. ProcessFaultTree_root True null_root_preprocessor = Some (False, P') \<and>
           root (graph P') = abs (- 11) \<and>
           root_sign P' = (if (- 11 :: int) < 0 then - root_sign null_root_preprocessor
                           else root_sign null_root_preprocessor) \<and>
           node_at (graph P') (root (graph null_root_preprocessor)) = None \<and>
           gate_of (graph P') (abs (- 11)) = Some an' \<and> parents an' = [] \<and>
           same_but_parents (example_gate kAndGate 0 [1, 2] [10]) an' \<and>
           (\<forall>i. i \<noteq> root (graph null_root_preprocessor) \<and> i \<noteq> abs (- 11) \<longrightarrow>
                node_at (graph P') i = node_at (graph null_root_preprocessor) i)"
    by (rule ProcessFaultTree_null_root
              [of null_root_preprocessor "example_gate kNullGate 0 [- 11] []" "- 11"
                  "example_gate kAndGate 0 [1, 2] [10]" True])
       (simp_all add: null_root_preprocessor_def null_root_graph_def gate_of_def node_at_def
          example_gate_def example_leaf_def)
  then obtain P' an' where
    "ProcessFaultTree_root True null_root_preprocessor = Some (False, P')"
    "root (graph P') = 11" "root_sign P' = - 1" "node_at (graph P') 10 = None"
    "gate_of (graph P') 11 = Some an'" "parents an' = []"
    by (auto simp: null_root_preprocessor_def null_root_graph_def)
  then show ?thesis by auto
qed

section \<open>Normalization of ATLEAST gates\<close>

lemma count_true_Cons: "count_true (b # bs) = (if b then 1 else 0) + count_true bs"
  by (simp add: count_true_def)

lemma count_true_le: "count_true bs \<le> int (length bs)"
  by (simp add: count_true_def)

lemma count_true_all: "count_true bs = int (length bs) \<longleftrightarrow> list_all id bs"
proof (induction bs)
  case Nil
  then show ?case by (simp add: count_true_def)
next
  case (Cons b bs)
  show ?case
    using Cons.IH count_true_le [of bs] by (cases b) (auto simp: count_true_Cons)
qed

lemma count_true_ex: "1 \<le> count_true bs \<longleftrightarrow> list_ex id bs"
proof (induction bs)
  case Nil
  then show ?case by (simp add: count_true_def)
next
  case (Cons b bs)
  have "0 \<le> count_true bs" by (simp add: count_true_def)
  then show ?case
    using Cons.IH by (cases b) (auto simp: count_true_Cons)
qed

lemma map_eval_Lit: "map (eval_formula \<rho>) (map Lit as) = map (lit \<rho>) as"
  by (induction as) simp_all

lemma eval_Lit_comp [simp]: "eval_formula \<rho> \<circ> Lit = lit \<rho>"
  by (rule ext) simp

lemma eval_atleast_expansion:
  "1 \<le> k \<Longrightarrow> k \<le> int (length as) \<Longrightarrow>
   eval_formula \<rho> (atleast_expansion k as) = (k \<le> count_true (map (lit \<rho>) as))"
proof (induction as arbitrary: k)
  case Nil
  then show ?case by simp
next
  case (Cons a as)
  let ?bs = "map (lit \<rho>) (a # as)"
  show ?case
  proof (cases "int (length (a # as)) = k")
    case True
    have "eval_formula \<rho> (atleast_expansion k (a # as)) = list_all id ?bs"
      using True by (simp add: apply_operator_def map_eval_Lit)
    also have "\<dots> = (count_true ?bs = int (length ?bs))"
      by (simp only: count_true_all)
    also have "\<dots> = (k \<le> count_true ?bs)"
      using True count_true_le [of ?bs] by auto
    finally show ?thesis .
  next
    case False
    show ?thesis
    proof (cases "k = 1")
      case True
      have "eval_formula \<rho> (atleast_expansion k (a # as)) = list_ex id ?bs"
        using True False by (simp add: apply_operator_def map_eval_Lit)
      then show ?thesis using True count_true_ex [of ?bs] by simp
    next
      case k1: False
      from False k1 Cons.prems have k: "2 \<le> k" "k \<le> int (length as)" by auto
      have ih1: "eval_formula \<rho> (atleast_expansion (k - 1) as) =
          (k - 1 \<le> count_true (map (lit \<rho>) as))"
        using Cons.IH [of "k - 1"] k by simp
      have ih2: "eval_formula \<rho> (atleast_expansion k as) = (k \<le> count_true (map (lit \<rho>) as))"
        using Cons.IH [of k] k by simp
      have "eval_formula \<rho> (atleast_expansion k (a # as)) =
          (lit \<rho> a \<and> k - 1 \<le> count_true (map (lit \<rho>) as) \<or> k \<le> count_true (map (lit \<rho>) as))"
        using False k1 ih1 ih2 by (simp add: apply_operator_def)
      then show ?thesis by (auto simp: count_true_Cons)
    qed
  qed
qed

lemma those_formulas_Some:
  "those_formulas xs = Some ys \<longleftrightarrow> xs = map Some ys"
proof (induction xs arbitrary: ys)
  case Nil
  then show ?case by auto
next
  case (Cons x xs)
  then show ?case by (cases x) (auto simp: map_eq_Cons_conv)
qed

lemma formula_of_mono:
  "formula_of fuel F G a = Some f \<Longrightarrow> formula_of (fuel + m) F G a = Some f"
proof (induction fuel arbitrary: a f)
  case 0
  then show ?case by simp
next
  case (Suc fuel)
  show ?case
  proof (cases "abs a \<in> set F")
    case True
    then show ?thesis using Suc.prems by simp
  next
    case False
    show ?thesis
    proof (cases "gate_of G (abs a)")
      case None
      then show ?thesis using Suc.prems False by simp
    next
      case (Some n)
      show ?thesis
      proof (cases "state n")
        case kNormalState
        from Suc.prems False Some kNormalState obtain fs where
          fs: "those_formulas (map (formula_of fuel F G) (args n)) = Some fs"
          by (auto split: option.splits)
        then have "map (formula_of fuel F G) (args n) = map Some fs"
          by (simp add: those_formulas_Some)
        then have "\<forall>i < length (args n). formula_of fuel F G (args n ! i) = Some (fs ! i)"
          and len: "length fs = length (args n)"
          by (auto simp: list_eq_iff_nth_eq)
        then have "\<forall>i < length (args n). formula_of (fuel + m) F G (args n ! i) = Some (fs ! i)"
          using Suc.IH by blast
        then have "map (formula_of (fuel + m) F G) (args n) = map Some fs"
          using len by (auto simp: list_eq_iff_nth_eq)
        then have "those_formulas (map (formula_of (fuel + m) F G) (args n)) = Some fs"
          by (simp add: those_formulas_Some)
        then show ?thesis
          using Suc.prems False Some kNormalState fs by simp
      qed (use Suc.prems False Some in auto)
    qed
  qed
qed


subsection \<open>Contents of nodes under the graph operations\<close>

lemma strip_simps [simp]:
  "kind (strip n) = kind n" "type (strip n) = type n" "state (strip n) = state n"
  "vote_number (strip n) = vote_number n" "args (strip n) = args n" "mark (strip n) = mark n"
  "parents (strip n) = []" "strip (strip n) = strip n"
  "strip (n\<lparr>parents := ps\<rparr>) = strip n"
  "strip (n\<lparr>type := t\<rparr>) = (strip n)\<lparr>type := t\<rparr>"
  "strip (n\<lparr>args := as\<rparr>) = (strip n)\<lparr>args := as\<rparr>"
  "strip (n\<lparr>vote_number := k\<rparr>) = (strip n)\<lparr>vote_number := k\<rparr>"
  "strip (n\<lparr>mark := b\<rparr>) = (strip n)\<lparr>mark := b\<rparr>"
  "strip (n\<lparr>state := s\<rparr>) = (strip n)\<lparr>state := s\<rparr>"
  "strip (add_parent p n) = strip n" "strip (remove_parent p n) = strip n"
  "strip (new_gate_node t) = new_gate_node t"
  by (simp_all add: strip_def add_parent_def remove_parent_def new_gate_node_def)

lemma strip_eq_fields:
  "strip n = c \<Longrightarrow>
   kind n = kind c \<and> type n = type c \<and> state n = state c \<and>
   vote_number n = vote_number c \<and> args n = args c \<and> mark n = mark c"
  by (drule sym) simp

lemma same_but_parents_strip: "same_but_parents n m \<longleftrightarrow> strip n = strip m"
  unfolding same_but_parents_def strip_def
  by (metis Node.surjective Node.update_convs(2))

lemma content_Some: "content G i = Some c \<longleftrightarrow> (\<exists>n. node_at G i = Some n \<and> strip n = c)"
  by (auto simp: content_def)

lemma content_None [simp]: "content G i = None \<longleftrightarrow> node_at G i = None"
  by (simp add: content_def)

lemma next_index_upd_node [simp]: "next_index (upd_node c f G) = next_index G"
  by (simp add: upd_node_def)

lemma content_upd_node:
  "(\<And>m. strip (f m) = f' (strip m)) \<Longrightarrow>
   content (upd_node c f G) i = (if i = c then map_option f' (content G i) else content G i)"
  by (simp add: content_def node_at_upd_node option.map_comp comp_def)

lemma content_upd_parents [simp]:
  "content (upd_node c (add_parent p) G) i = content G i"
  "content (upd_node c (remove_parent p) G) i = content G i"
  by (simp_all add: content_upd_node [where f' = id] option.map_id)

lemma content_set_fields [simp]:
  "content (set_type g t G) i =
     (if i = g then map_option (\<lambda>n. n\<lparr>type := t\<rparr>) (content G i) else content G i)"
  "content (set_vote_number g k G) i =
     (if i = g then map_option (\<lambda>n. n\<lparr>vote_number := k\<rparr>) (content G i) else content G i)"
  "content (set_mark g b G) i =
     (if i = g then map_option (\<lambda>n. n\<lparr>mark := b\<rparr>) (content G i) else content G i)"
  by (simp_all add: set_type_def set_vote_number_def set_mark_def content_upd_node)

lemma next_index_set_fields [simp]:
  "next_index (set_type g t G) = next_index G"
  "next_index (set_vote_number g k G) = next_index G"
  "next_index (set_mark g b G) = next_index G"
  by (simp_all add: set_type_def set_vote_number_def set_mark_def)

lemma new_IGate_simps [simp]:
  "fst (new_IGate t G) = next_index G"
  "next_index (snd (new_IGate t G)) = next_index G + 1"
  "node_at (snd (new_IGate t G)) i =
     (if i = next_index G then Some (new_gate_node t) else node_at G i)"
  "content (snd (new_IGate t G)) i =
     (if i = next_index G then Some (new_gate_node t) else content G i)"
  by (simp_all add: new_IGate_def node_at_def content_def new_gate_node_def strip_def)

lemma AddArg_plain:
  assumes "content G g = Some c" "a \<notin> set (args c)" "- a \<notin> set (args c)"
  shows "snd (AddArg g a G) =
     upd_node (abs a) (add_parent g) (upd_node g (\<lambda>n. n\<lparr>args := insort a (args n)\<rparr>) G)"
  using assms by (auto simp: AddArg_def content_Some)

lemma content_AddArg:
  assumes "content G g = Some c" "a \<notin> set (args c)" "- a \<notin> set (args c)"
  shows "content (snd (AddArg g a G)) i =
     (if i = g then Some (c\<lparr>args := insort a (args c)\<rparr>) else content G i)"
  using assms
  by (simp add: AddArg_plain [OF assms]
        content_upd_node [where f' = "\<lambda>n. n\<lparr>args := insort a (args n)\<rparr>"])

lemma next_index_AddArg:
  assumes "content G g = Some c" "a \<notin> set (args c)" "- a \<notin> set (args c)"
  shows "next_index (snd (AddArg g a G)) = next_index G"
  by (simp add: AddArg_plain [OF assms])

lemma ShareArg_plain:
  assumes "content G g = Some cg" "a \<in> set (args cg)"
  shows "ShareArg g a r G = snd (AddArg r a G)"
  using assms by (auto simp: ShareArg_def content_Some)

lemma parent_of_upd_node:
  assumes "parent_of G p i" and mono: "\<And>m. set (parents m) \<subseteq> set (parents (f m))"
  shows "parent_of (upd_node c f G) p i"
proof (cases "node_at G i")
  case None
  then show ?thesis by (cases "i = c") (simp_all add: parent_of_def node_at_upd_node)
next
  case (Some m)
  then have "p \<in> set (parents m)" using assms(1) by (simp add: parent_of_def)
  then have "p \<in> set (parents (f m))" using mono [of m] by blast
  then show ?thesis
    using Some assms(1) by (cases "i = c") (simp_all add: parent_of_def node_at_upd_node)
qed

lemma parent_of_upd_node_other:
  "parent_of G p i \<Longrightarrow> i \<noteq> c \<Longrightarrow> parent_of (upd_node c f G) p i"
  by (auto simp: parent_of_def node_at_upd_node split: option.splits)

lemma parents_field_updates [simp]:
  "parents (n\<lparr>args := as\<rparr>) = parents n"
  by simp

lemma parent_of_AddArg_new:
  assumes "content G g = Some c" "a \<notin> set (args c)" "- a \<notin> set (args c)"
  shows "parent_of (snd (AddArg g a G)) g (abs a)"
  by (auto simp: AddArg_plain [OF assms] parent_of_def node_at_upd_node add_parent_def
           split: option.splits)

lemma parent_of_AddArg_old:
  assumes "content G g = Some c" "a \<notin> set (args c)" "- a \<notin> set (args c)"
    and "parent_of G p i"
  shows "parent_of (snd (AddArg g a G)) p i"
  unfolding AddArg_plain [OF assms(1,2,3)]
  by (intro parent_of_upd_node assms(4)) (auto simp: add_parent_def)


lemma release_id:
  "(\<forall>i \<in> set w. case node_at G i of None \<Rightarrow> True
        | Some m \<Rightarrow> kind m \<noteq> kGate \<or> parents m \<noteq> [] \<or> i = root G \<or> i \<in> set keep \<or>
            i \<in> set (held G)) \<Longrightarrow>
   release keep w G = G"
  by (induction w) (auto simp: release.simps split: option.splits)

lemma remove_parent_idem [simp]: "remove_parent p (remove_parent p m) = remove_parent p m"
  by (simp add: remove_parent_def)

lemma node_at_fold_remove_parent:
  "node_at (fold (\<lambda>c. upd_node c (remove_parent p)) cs G) i =
     (if i \<in> set cs then map_option (remove_parent p) (node_at G i) else node_at G i)"
proof (induction cs arbitrary: G)
  case Nil
  then show ?case by simp
next
  case (Cons c cs)
  show ?case
    by (cases "node_at G i") (auto simp: Cons.IH node_at_upd_node)
qed

lemma next_index_fold_upd [simp]:
  "next_index (fold (\<lambda>c. upd_node c (f c)) cs G) = next_index G"
  by (induction cs arbitrary: G) simp_all

lemma EraseAllArgs_owned:
  assumes g: "node_at G g = Some n"
    and owned: "\<forall>a \<in> set (args n). case node_at G (abs a) of None \<Rightarrow> True
        | Some m \<Rightarrow> kind m \<noteq> kGate \<or> (\<exists>p \<in> set (parents m). p \<noteq> g)"
    and noself: "\<forall>a \<in> set (args n). abs a \<noteq> g"
  shows "EraseAllArgs g G =
     fold (\<lambda>c. upd_node c (remove_parent g)) (map abs (args n))
       (upd_node g (\<lambda>n. n\<lparr>args := []\<rparr>) G)"
proof -
  let ?Ga = "upd_node g (\<lambda>n. n\<lparr>args := []\<rparr>) G"
  let ?Gb = "fold (\<lambda>c. upd_node c (remove_parent g)) (map abs (args n)) ?Ga"
  have "case node_at ?Gb i of None \<Rightarrow> True
        | Some m \<Rightarrow> kind m \<noteq> kGate \<or> parents m \<noteq> [] \<or> i = root ?Gb \<or> i \<in> set [g] \<or>
            i \<in> set (held ?Gb)"
    if i: "i \<in> set (map abs (args n))" for i
  proof -
    from i obtain a where a: "a \<in> set (args n)" "i = abs a" by auto
    with noself have ig: "i \<noteq> g" by blast
    show ?thesis
    proof (cases "node_at G i")
      case None
      then show ?thesis using i ig by (simp add: node_at_fold_remove_parent node_at_upd_node)
    next
      case (Some m)
      with owned a have "kind m \<noteq> kGate \<or> (\<exists>p \<in> set (parents m). p \<noteq> g)" by force
      then have "kind (remove_parent g m) \<noteq> kGate \<or> set (parents (remove_parent g m)) \<noteq> {}"
        by (auto simp: remove_parent_def)
      then have "kind (remove_parent g m) \<noteq> kGate \<or> parents (remove_parent g m) \<noteq> []"
        by auto
      then show ?thesis
        using Some i ig by (auto simp: node_at_fold_remove_parent node_at_upd_node)
    qed
  qed
  then have "release [g] (map abs (args n)) ?Gb = ?Gb"
    by (intro release_id) blast
  then show ?thesis using g by (simp add: EraseAllArgs_def)
qed

lemma content_fold_remove [simp]:
  "content (fold (\<lambda>c. upd_node c (remove_parent p)) cs G) i = content G i"
  by (induction cs arbitrary: G) simp_all

lemma parent_of_fold_remove:
  "parent_of G p i \<Longrightarrow> p \<noteq> q \<Longrightarrow>
   parent_of (fold (\<lambda>c. upd_node c (remove_parent q)) cs G) p i"
  by (cases "node_at G i")
     (auto simp: parent_of_def node_at_fold_remove_parent remove_parent_def)

lemma fold_share:
  assumes "content G gate = Some cg" "set xs \<subseteq> set (args cg)"
    and "content G ga = Some c1" "content G sa = Some c2"
    and "ga \<noteq> sa" "gate \<noteq> ga" "gate \<noteq> sa"
    and "\<forall>x \<in> set xs. x \<notin> set (args c1) \<and> - x \<notin> set (args c1) \<and>
                       x \<notin> set (args c2) \<and> - x \<notin> set (args c2)"
    and "distinct (map abs xs)"
  shows "(\<forall>i. content (fold (\<lambda>a G. ShareArg gate a sa (ShareArg gate a ga G)) xs G) i =
           (if i = ga then Some (c1\<lparr>args := fold insort xs (args c1)\<rparr>)
            else if i = sa then Some (c2\<lparr>args := fold insort xs (args c2)\<rparr>)
            else content G i)) \<and>
         next_index (fold (\<lambda>a G. ShareArg gate a sa (ShareArg gate a ga G)) xs G) = next_index G \<and>
         (\<forall>x \<in> set xs. parent_of (fold (\<lambda>a G. ShareArg gate a sa (ShareArg gate a ga G)) xs G)
                          ga (abs x)) \<and>
         (\<forall>p i. parent_of G p i \<longrightarrow>
                parent_of (fold (\<lambda>a G. ShareArg gate a sa (ShareArg gate a ga G)) xs G) p i)"
  using assms
proof (induction xs arbitrary: G c1 c2)
  case Nil
  then show ?case by auto
next
  case (Cons x xs)
  let ?Ga = "ShareArg gate x ga G"
  let ?Gb = "ShareArg gate x sa ?Ga"
  let ?c1 = "c1\<lparr>args := insort x (args c1)\<rparr>" and ?c2 = "c2\<lparr>args := insort x (args c2)\<rparr>"
  from Cons.prems have xin: "x \<in> set (args cg)" by simp
  from Cons.prems have x1: "x \<notin> set (args c1)" "- x \<notin> set (args c1)"
    and x2: "x \<notin> set (args c2)" "- x \<notin> set (args c2)" by auto
  have Ga: "?Ga = snd (AddArg ga x G)"
    using ShareArg_plain [OF Cons.prems(1) xin] .
  have ca: "content ?Ga i = (if i = ga then Some ?c1 else content G i)" for i
    unfolding Ga using content_AddArg [OF Cons.prems(3) x1] by simp
  have ca_gate: "content ?Ga gate = Some cg" and ca_sa: "content ?Ga sa = Some c2"
    using ca Cons.prems by auto
  have Gb: "?Gb = snd (AddArg sa x ?Ga)"
    using ShareArg_plain [OF ca_gate xin] .
  have cb: "content ?Gb i =
      (if i = ga then Some ?c1 else if i = sa then Some ?c2 else content G i)" for i
    unfolding Gb using content_AddArg [OF ca_sa x2] ca Cons.prems(5) by auto
  have "next_index ?Gb = next_index ?Ga"
    by (simp only: Gb next_index_AddArg [OF ca_sa x2])
  also have "\<dots> = next_index G"
    by (simp only: Ga next_index_AddArg [OF Cons.prems(3) x1])
  finally have nb: "next_index ?Gb = next_index G" .
  have "parent_of ?Ga ga (abs x)"
    by (simp only: Ga parent_of_AddArg_new [OF Cons.prems(3) x1])
  then have pa: "parent_of ?Gb ga (abs x)"
    by (simp only: Gb parent_of_AddArg_old [OF ca_sa x2])
  have pold: "parent_of ?Gb p i" if "parent_of G p i" for p i
  proof -
    have "parent_of ?Ga p i"
      by (simp only: Ga parent_of_AddArg_old [OF Cons.prems(3) x1 that])
    then show ?thesis
      by (simp only: Gb parent_of_AddArg_old [OF ca_sa x2])
  qed
  have rest: "\<forall>y \<in> set xs. y \<notin> set (args ?c1) \<and> - y \<notin> set (args ?c1) \<and>
                       y \<notin> set (args ?c2) \<and> - y \<notin> set (args ?c2)"
    using Cons.prems(8,9) by (auto simp: set_insort_key)
  have ih: "(\<forall>i. content (fold (\<lambda>a G. ShareArg gate a sa (ShareArg gate a ga G)) xs ?Gb) i =
           (if i = ga then Some (?c1\<lparr>args := fold insort xs (args ?c1)\<rparr>)
            else if i = sa then Some (?c2\<lparr>args := fold insort xs (args ?c2)\<rparr>)
            else content ?Gb i)) \<and>
         next_index (fold (\<lambda>a G. ShareArg gate a sa (ShareArg gate a ga G)) xs ?Gb) =
           next_index ?Gb \<and>
         (\<forall>x \<in> set xs. parent_of (fold (\<lambda>a G. ShareArg gate a sa (ShareArg gate a ga G)) xs ?Gb)
                          ga (abs x)) \<and>
         (\<forall>p i. parent_of ?Gb p i \<longrightarrow>
                parent_of (fold (\<lambda>a G. ShareArg gate a sa (ShareArg gate a ga G)) xs ?Gb) p i)"
  proof (rule Cons.IH)
    show "content ?Gb gate = Some cg" using cb Cons.prems by auto
    show "set xs \<subseteq> set (args cg)" using Cons.prems by simp
    show "content ?Gb ga = Some ?c1" using cb by simp
    show "content ?Gb sa = Some ?c2" using cb Cons.prems(5) by simp
    show "ga \<noteq> sa" "gate \<noteq> ga" "gate \<noteq> sa" using Cons.prems by auto
    show "\<forall>y \<in> set xs. y \<notin> set (args ?c1) \<and> - y \<notin> set (args ?c1) \<and>
                       y \<notin> set (args ?c2) \<and> - y \<notin> set (args ?c2)" by (rule rest)
    show "distinct (map abs xs)" using Cons.prems by simp
  qed
  show ?case
    using ih cb nb pa pold by (auto)
qed


subsection \<open>The expansion\<close>

lemma NormalizeAtleastGate_unfold:
  "NormalizeAtleastGate dbg gate G =
     (case gate_of G gate of
        None \<Rightarrow> None
      | Some n \<Rightarrow>
          if dbg \<and> \<not> (type n = kAtleastGate \<and> vote_number n > 0 \<and> length (args n) > 1) then None
          else if int (length (args n)) = vote_number n then Some (set_type gate kAndGate G)
          else if vote_number n = 1 then Some (set_type gate kOrGate G)
          else
            (case args n of
               [] \<Rightarrow> None
             | first # rest \<Rightarrow>
                 (case NormalizeAtleastGate_split gate (vote_number n) first rest G of
                    (grand_arg, second_arg, G13) \<Rightarrow>
                      (case NormalizeAtleastGate dbg grand_arg G13 of
                         None \<Rightarrow> None
                       | Some G14 \<Rightarrow> NormalizeAtleastGate dbg second_arg G14))))"
  by (subst NormalizeAtleastGate.simps)
     (auto simp: NormalizeAtleastGate_split_def assert_that_def Let_def split_def
           split: option.splits list.splits Option.bind_splits)

lemma fold_insort_sorted: "sorted (ys @ xs) \<Longrightarrow> fold insort xs ys = ys @ xs"
proof (induction xs arbitrary: ys)
  case Nil
  then show ?case by simp
next
  case (Cons x xs)
  have "insort x ys = ys @ [x]"
    using Cons.prems by (intro sorted_insort_is_snoc) (auto simp: sorted_append)
  then show ?case using Cons.IH [of "ys @ [x]"] Cons.prems by simp
qed


lemma parent_of_new_IGate:
  "parent_of G p i \<Longrightarrow> i \<noteq> next_index G \<Longrightarrow> parent_of (snd (new_IGate t G)) p i"
  by (simp add: parent_of_def)

lemma parent_of_set_fields:
  "parent_of G p i \<Longrightarrow> parent_of (set_type g t G) p i"
  "parent_of G p i \<Longrightarrow> parent_of (set_vote_number g k G) p i"
  "parent_of G p i \<Longrightarrow> parent_of (set_mark g b G) p i"
  unfolding set_type_def set_vote_number_def set_mark_def
  by (erule parent_of_upd_node; simp)+

lemma atleast_split_facts:
  assumes g: "content G gate = Some c" and args: "args c = first # rest"
    and srt: "sorted (first # rest)" and dist: "distinct (map abs (first # rest))"
    and small: "\<forall>a \<in> set (first # rest). abs a < next_index G \<and> abs a \<noteq> gate"
    and gate_lt: "gate < next_index G"
    and fresh: "\<forall>i. next_index G \<le> i \<longrightarrow> node_at G i = None"
  defines "N \<equiv> next_index G"
  shows "\<exists>G'. NormalizeAtleastGate_split gate k first rest G = (N + 1, N + 2, G') \<and>
           next_index G' = N + 3 \<and>
           (\<forall>i. content G' i =
             (if i = gate then Some (c\<lparr>type := kOrGate, args := [N, N + 2]\<rparr>)
              else if i = N then Some ((new_gate_node kAndGate)\<lparr>args := [first, N + 1], mark := True\<rparr>)
              else if i = N + 1
              then Some ((new_gate_node kAtleastGate)\<lparr>vote_number := k - 1, args := rest, mark := True\<rparr>)
              else if i = N + 2
              then Some ((new_gate_node kAtleastGate)\<lparr>vote_number := k, args := rest, mark := True\<rparr>)
              else content G i))"
proof -
  define Ga where "Ga = snd (new_IGate kAndGate G)"
  define Gb where "Gb = ShareArg gate first N Ga"
  define Gc where "Gc = snd (new_IGate kAtleastGate Gb)"
  define Gd where "Gd = snd (AddArg N (N + 1) Gc)"
  define Ge where "Ge = set_vote_number (N + 1) (k - 1) Gd"
  define Gf where "Gf = snd (new_IGate kAtleastGate Ge)"
  define Gg where "Gg = set_vote_number (N + 2) k Gf"
  define Gh where "Gh = fold (\<lambda>a G. ShareArg gate a (N + 2) (ShareArg gate a (N + 1) G)) rest Gg"
  define Gi where "Gi = set_mark (N + 1) True (set_mark (N + 2) True (set_mark N True Gh))"
  define Gj where "Gj = set_type gate kOrGate Gi"
  define Gk where "Gk = EraseAllArgs gate Gj"
  define Gl where "Gl = snd (AddArg gate N Gk)"
  define Gm where "Gm = snd (AddArg gate (N + 2) Gl)"
  have first_lt: "abs first < N" "abs first \<noteq> gate" and rest_lt: "\<forall>a \<in> set rest. abs a < N \<and> abs a \<noteq> gate"
    using small by (auto simp: N_def)
  have gN: "gate \<noteq> N" "gate \<noteq> N + 1" "gate \<noteq> N + 2" using gate_lt by (auto simp: N_def)
  have fr: "content G i = None" if "N \<le> i" for i using fresh that by (simp add: N_def)
  \<comment> \<open>the new AND gate and the first argument\<close>
  have ca: "content Ga i = (if i = N then Some (new_gate_node kAndGate) else content G i)" for i
    by (simp add: Ga_def N_def)
  have na: "next_index Ga = N + 1" by (simp add: Ga_def N_def)
  have ca_gate: "content Ga gate = Some c" using ca gN g by simp
  have ca_N: "content Ga N = Some (new_gate_node kAndGate)" using ca by simp
  have e0: "first \<notin> set (args (new_gate_node kAndGate))" "- first \<notin> set (args (new_gate_node kAndGate))"
    by (simp_all add: new_gate_node_def)
  have Gb: "Gb = snd (AddArg N first Ga)"
    unfolding Gb_def using ShareArg_plain [OF ca_gate] args by simp
  have cb: "content Gb i =
      (if i = N then Some ((new_gate_node kAndGate)\<lparr>args := [first]\<rparr>) else content G i)" for i
    unfolding Gb using content_AddArg [OF ca_N e0] ca by (simp add: new_gate_node_def)
  have nb: "next_index Gb = N + 1"
    unfolding Gb using next_index_AddArg [OF ca_N e0] na by simp
  have pb: "parent_of Gb N (abs first)"
    unfolding Gb using parent_of_AddArg_new [OF ca_N e0] .
  \<comment> \<open>the grand argument\<close>
  have cc: "content Gc i =
      (if i = N then Some ((new_gate_node kAndGate)\<lparr>args := [first]\<rparr>)
       else if i = N + 1 then Some (new_gate_node kAtleastGate) else content G i)" for i
    by (simp add: Gc_def nb cb)
  have nc: "next_index Gc = N + 2" by (simp add: Gc_def nb)
  have pc: "parent_of Gc N (abs first)"
    unfolding Gc_def using first_lt by (intro parent_of_new_IGate pb) (simp add: nb)
  have cc_N: "content Gc N = Some ((new_gate_node kAndGate)\<lparr>args := [first]\<rparr>)" using cc by simp
  have e1: "N + 1 \<notin> set (args ((new_gate_node kAndGate)\<lparr>args := [first]\<rparr>))"
    "- (N + 1) \<notin> set (args ((new_gate_node kAndGate)\<lparr>args := [first]\<rparr>))"
    using first_lt by auto
  have ins1: "insort (N + 1) [first] = [first, N + 1]" using first_lt by auto
  have cd: "content Gd i =
      (if i = N then Some ((new_gate_node kAndGate)\<lparr>args := [first, N + 1]\<rparr>)
       else if i = N + 1 then Some (new_gate_node kAtleastGate) else content G i)" for i
    unfolding Gd_def using content_AddArg [OF cc_N e1] cc first_lt by (simp add: ins1)
  have nd: "next_index Gd = N + 2"
    unfolding Gd_def using next_index_AddArg [OF cc_N e1] nc by simp
  have pd: "parent_of Gd N (abs first)"
    unfolding Gd_def using parent_of_AddArg_old [OF cc_N e1 pc] .
  have ce: "content Ge i =
      (if i = N then Some ((new_gate_node kAndGate)\<lparr>args := [first, N + 1]\<rparr>)
       else if i = N + 1 then Some ((new_gate_node kAtleastGate)\<lparr>vote_number := k - 1\<rparr>)
       else content G i)" for i
    by (simp add: Ge_def cd)
  have ne: "next_index Ge = N + 2" by (simp add: Ge_def nd)
  have pe: "parent_of Ge N (abs first)"
    unfolding Ge_def by (intro parent_of_set_fields pd)
  \<comment> \<open>the second argument\<close>
  have cg: "content Gg i =
      (if i = N then Some ((new_gate_node kAndGate)\<lparr>args := [first, N + 1]\<rparr>)
       else if i = N + 1 then Some ((new_gate_node kAtleastGate)\<lparr>vote_number := k - 1\<rparr>)
       else if i = N + 2 then Some ((new_gate_node kAtleastGate)\<lparr>vote_number := k\<rparr>)
       else content G i)" for i
    by (simp add: Gg_def Gf_def ne ce)
  have ng: "next_index Gg = N + 3" by (simp add: Gg_def Gf_def ne)
  have pg: "parent_of Gg N (abs first)"
    unfolding Gg_def Gf_def using first_lt
    by (intro parent_of_set_fields parent_of_new_IGate pe) (simp add: ne)
  \<comment> \<open>sharing the rest of the arguments\<close>
  have cg_gate: "content Gg gate = Some c" using cg gN g by simp
  have share:
    "(\<forall>i. content Gh i =
        (if i = N + 1
         then Some ((new_gate_node kAtleastGate)\<lparr>vote_number := k - 1\<rparr>
                      \<lparr>args := fold insort rest (args ((new_gate_node kAtleastGate)\<lparr>vote_number := k - 1\<rparr>))\<rparr>)
         else if i = N + 2
         then Some ((new_gate_node kAtleastGate)\<lparr>vote_number := k\<rparr>
                      \<lparr>args := fold insort rest (args ((new_gate_node kAtleastGate)\<lparr>vote_number := k\<rparr>))\<rparr>)
         else content Gg i)) \<and>
     next_index Gh = next_index Gg \<and>
     (\<forall>x \<in> set rest. parent_of Gh (N + 1) (abs x)) \<and>
     (\<forall>p i. parent_of Gg p i \<longrightarrow> parent_of Gh p i)"
    unfolding Gh_def
  proof (rule fold_share [OF cg_gate])
    show "set rest \<subseteq> set (args c)" using args by auto
    show "content Gg (N + 1) = Some ((new_gate_node kAtleastGate)\<lparr>vote_number := k - 1\<rparr>)"
      using cg by simp
    show "content Gg (N + 2) = Some ((new_gate_node kAtleastGate)\<lparr>vote_number := k\<rparr>)"
      using cg by simp
    show "N + 1 \<noteq> N + 2" "gate \<noteq> N + 1" "gate \<noteq> N + 2" using gN by auto
    show "\<forall>x \<in> set rest.
        x \<notin> set (args ((new_gate_node kAtleastGate)\<lparr>vote_number := k - 1\<rparr>)) \<and>
        - x \<notin> set (args ((new_gate_node kAtleastGate)\<lparr>vote_number := k - 1\<rparr>)) \<and>
        x \<notin> set (args ((new_gate_node kAtleastGate)\<lparr>vote_number := k\<rparr>)) \<and>
        - x \<notin> set (args ((new_gate_node kAtleastGate)\<lparr>vote_number := k\<rparr>))"
      by (simp add: new_gate_node_def)
    show "distinct (map abs rest)" using dist by simp
  qed
  have fi: "fold insort rest [] = rest"
    using fold_insort_sorted [of "[]" rest] srt by simp
  have ch: "content Gh i =
      (if i = N then Some ((new_gate_node kAndGate)\<lparr>args := [first, N + 1]\<rparr>)
       else if i = N + 1 then Some ((new_gate_node kAtleastGate)\<lparr>vote_number := k - 1, args := rest\<rparr>)
       else if i = N + 2 then Some ((new_gate_node kAtleastGate)\<lparr>vote_number := k, args := rest\<rparr>)
       else content G i)" for i
    using share cg by (simp add: fi new_gate_node_def)
  have nh: "next_index Gh = N + 3" using share ng by simp
  have ph: "parent_of Gh N (abs first)" "\<forall>x \<in> set rest. parent_of Gh (N + 1) (abs x)"
    using share pg by auto
  \<comment> \<open>marks and the new operator of the gate\<close>
  have cj: "content Gj i =
      (if i = gate then Some (c\<lparr>type := kOrGate\<rparr>)
       else if i = N then Some ((new_gate_node kAndGate)\<lparr>args := [first, N + 1], mark := True\<rparr>)
       else if i = N + 1
       then Some ((new_gate_node kAtleastGate)\<lparr>vote_number := k - 1, args := rest, mark := True\<rparr>)
       else if i = N + 2
       then Some ((new_gate_node kAtleastGate)\<lparr>vote_number := k, args := rest, mark := True\<rparr>)
       else content G i)" for i
    using gN g by (simp add: Gj_def Gi_def ch)
  have nj: "next_index Gj = N + 3" by (simp add: Gj_def Gi_def nh)
  have pj: "parent_of Gj N (abs first)" "\<forall>x \<in> set rest. parent_of Gj (N + 1) (abs x)"
    unfolding Gj_def Gi_def using ph by (auto intro!: parent_of_set_fields)
  \<comment> \<open>erasing the arguments of the gate discards nothing\<close>
  from cj [of gate] obtain nj' where nj': "node_at Gj gate = Some nj'" "strip nj' = c\<lparr>type := kOrGate\<rparr>"
    by (auto simp: content_Some)
  have aj: "args nj' = first # rest"
    using strip_eq_fields [OF nj'(2)] args by simp
  have owned: "\<forall>a \<in> set (args nj'). case node_at Gj (abs a) of None \<Rightarrow> True
        | Some m \<Rightarrow> kind m \<noteq> kGate \<or> (\<exists>p \<in> set (parents m). p \<noteq> gate)"
  proof
    fix a assume "a \<in> set (args nj')"
    then have "a = first \<or> a \<in> set rest" using aj by simp
    then have "parent_of Gj N (abs a) \<or> parent_of Gj (N + 1) (abs a)" using pj by auto
    then show "case node_at Gj (abs a) of None \<Rightarrow> True
        | Some m \<Rightarrow> kind m \<noteq> kGate \<or> (\<exists>p \<in> set (parents m). p \<noteq> gate)"
      using gN by (auto simp: parent_of_def split: option.splits)
  qed
  have noself: "\<forall>a \<in> set (args nj'). abs a \<noteq> gate"
    using aj small by auto
  have Gk: "Gk = fold (\<lambda>c. upd_node c (remove_parent gate)) (map abs (args nj'))
       (upd_node gate (\<lambda>n. n\<lparr>args := []\<rparr>) Gj)"
    unfolding Gk_def by (rule EraseAllArgs_owned [OF nj'(1) owned noself])
  have ck: "content Gk i =
      (if i = gate then Some (c\<lparr>type := kOrGate, args := []\<rparr>)
       else if i = N then Some ((new_gate_node kAndGate)\<lparr>args := [first, N + 1], mark := True\<rparr>)
       else if i = N + 1
       then Some ((new_gate_node kAtleastGate)\<lparr>vote_number := k - 1, args := rest, mark := True\<rparr>)
       else if i = N + 2
       then Some ((new_gate_node kAtleastGate)\<lparr>vote_number := k, args := rest, mark := True\<rparr>)
       else content G i)" for i
    unfolding Gk
    by (simp add: content_upd_node [where f' = "\<lambda>n. n\<lparr>args := []\<rparr>"] cj)
  have nk: "next_index Gk = N + 3" unfolding Gk by (simp add: nj)
  \<comment> \<open>the two new arguments of the gate\<close>
  have ck_gate: "content Gk gate = Some (c\<lparr>type := kOrGate, args := []\<rparr>)" using ck by simp
  have e2: "N \<notin> set (args (c\<lparr>type := kOrGate, args := []\<rparr>))"
    "- N \<notin> set (args (c\<lparr>type := kOrGate, args := []\<rparr>))" by simp_all
  have cl: "content Gl i =
      (if i = gate then Some (c\<lparr>type := kOrGate, args := [N]\<rparr>)
       else if i = N then Some ((new_gate_node kAndGate)\<lparr>args := [first, N + 1], mark := True\<rparr>)
       else if i = N + 1
       then Some ((new_gate_node kAtleastGate)\<lparr>vote_number := k - 1, args := rest, mark := True\<rparr>)
       else if i = N + 2
       then Some ((new_gate_node kAtleastGate)\<lparr>vote_number := k, args := rest, mark := True\<rparr>)
       else content G i)" for i
    unfolding Gl_def using content_AddArg [OF ck_gate e2] ck by simp
  have nl: "next_index Gl = N + 3"
    unfolding Gl_def using next_index_AddArg [OF ck_gate e2] nk by simp
  have cl_gate: "content Gl gate = Some (c\<lparr>type := kOrGate, args := [N]\<rparr>)" using cl by simp
  have Npos: "- (N + 2) \<noteq> N" using gate_lt first_lt by (auto simp: N_def)
  have e3: "N + 2 \<notin> set (args (c\<lparr>type := kOrGate, args := [N]\<rparr>))"
    "- (N + 2) \<notin> set (args (c\<lparr>type := kOrGate, args := [N]\<rparr>))" using Npos by simp_all
  have cm: "content Gm i =
      (if i = gate then Some (c\<lparr>type := kOrGate, args := [N, N + 2]\<rparr>)
       else if i = N then Some ((new_gate_node kAndGate)\<lparr>args := [first, N + 1], mark := True\<rparr>)
       else if i = N + 1
       then Some ((new_gate_node kAtleastGate)\<lparr>vote_number := k - 1, args := rest, mark := True\<rparr>)
       else if i = N + 2
       then Some ((new_gate_node kAtleastGate)\<lparr>vote_number := k, args := rest, mark := True\<rparr>)
       else content G i)" for i
    unfolding Gm_def using content_AddArg [OF cl_gate e3] cl by simp
  have nm: "next_index Gm = N + 3"
    unfolding Gm_def using next_index_AddArg [OF cl_gate e3] nl by simp
  have "NormalizeAtleastGate_split gate k first rest G = (N + 1, N + 2, Gm)"
    unfolding NormalizeAtleastGate_split_def Let_def split_def
    by (simp add: Gm_def Gl_def Gk_def Gj_def Gi_def Gh_def Gg_def Gf_def Ge_def Gd_def Gc_def
          Gb_def Ga_def N_def nb [unfolded Gb_def Ga_def N_def]
          nd [unfolded Gd_def Gc_def Gb_def Ga_def N_def])
  then show ?thesis using cm nm by blast
qed


lemma gate_of_content:
  "content G i = Some c \<Longrightarrow> kind c = kGate \<Longrightarrow> \<exists>n. gate_of G i = Some n \<and> strip n = c"
  by (auto simp: content_Some gate_of_def)

lemma formula_of_frontier: "abs a \<in> set F \<Longrightarrow> formula_of (Suc fuel) F G a = Some (Lit a)"
  by simp

lemma formula_of_gate:
  assumes "content G x = Some c" "kind c = kGate" "state c = kNormalState" "0 < x" "x \<notin> set F"
    and "map (formula_of fuel F G) (args c) = map Some fs"
  shows "formula_of (Suc fuel) F G x =
           Some (Op (type c) (if type c = kAtleastGate then vote_number c else 0) fs)"
proof -
  from gate_of_content [OF assms(1,2)] obtain n where n: "gate_of G x = Some n" "strip n = c"
    by blast
  then have f: "state n = kNormalState" "args n = args c" "type n = type c"
    "vote_number n = vote_number c"
    using assms(3) strip_eq_fields [of n c] by auto
  have "those_formulas (map (formula_of fuel F G) (args n)) = Some fs"
    using assms(6) f by (simp add: those_formulas_Some)
  then show ?thesis
    using assms(4,5) n f by simp
qed

lemma formula_of_literals:
  "\<forall>a \<in> set A. abs a \<in> set F \<Longrightarrow> map (formula_of (Suc fuel) F G) A = map Some (map Lit A)"
  by (induction A) simp_all

lemma NormalizeAtleastGate_expansion:
  assumes "content G gate = Some c" "kind c = kGate" "type c = kAtleastGate"
    "state c = kNormalState" "vote_number c = k" "args c = A"
    "1 \<le> k" "k \<le> int (length A)" "dbg \<longrightarrow> 1 < length A"
    "sorted A" "distinct (map abs A)" "\<forall>a \<in> set A. abs a \<in> set F" "gate \<notin> set F" "0 < gate"
    "\<forall>i \<in> set F. i < next_index G" "gate < next_index G"
    "\<forall>i. next_index G \<le> i \<longrightarrow> node_at G i = None"
  shows "\<exists>G'. NormalizeAtleastGate dbg gate G = Some G' \<and> next_index G \<le> next_index G' \<and>
     (\<forall>i. i < next_index G \<and> i \<noteq> gate \<longrightarrow> content G' i = content G i) \<and>
     (\<forall>i. next_index G' \<le> i \<longrightarrow> node_at G' i = None) \<and>
     (\<forall>G''. (\<forall>i. i = gate \<or> next_index G \<le> i \<and> i < next_index G' \<longrightarrow>
                  content G'' i = content G' i) \<longrightarrow>
        (\<exists>fuel. formula_of fuel F G'' gate = Some (atleast_expansion k A)))"
  using assms
proof (induction A arbitrary: G gate k c)
  case Nil
  then show ?case by simp
next
  case (Cons a as)
  let ?A = "a # as"
  from gate_of_content [OF Cons.prems(1,2)] obtain n where
    n: "gate_of G gate = Some n" "strip n = c" by blast
  have nf: "type n = kAtleastGate" "vote_number n = k" "args n = ?A"
    using strip_eq_fields [OF n(2)] Cons.prems(3,5,6) by auto
  have dbg_ok: "\<not> (dbg \<and> \<not> (type n = kAtleastGate \<and> vote_number n > 0 \<and> length (args n) > 1))"
    using nf Cons.prems(7,9) by auto
  have lits: "map (formula_of (Suc 0) F G'') ?A = map Some (map Lit ?A)" for G''
    using formula_of_literals [OF Cons.prems(12)] .
  show ?case
  proof (cases "int (length ?A) = k")
    case True
    let ?G' = "set_type gate kAndGate G"
    have run: "NormalizeAtleastGate dbg gate G = Some ?G'"
      using n(1) nf dbg_ok True by (subst NormalizeAtleastGate_unfold) simp
    have cg: "content ?G' gate = Some (c\<lparr>type := kAndGate\<rparr>)"
      using Cons.prems(1) by simp
    have read: "\<exists>fuel. formula_of fuel F G'' gate = Some (atleast_expansion k ?A)"
      if "content G'' gate = content ?G' gate" for G''
    proof -
      have e: "atleast_expansion k ?A = Op kAndGate 0 (map Lit ?A)" using True by simp
      have "formula_of (Suc (Suc 0)) F G'' gate = Some (atleast_expansion k ?A)"
        unfolding e
        using formula_of_gate [of G'' gate "c\<lparr>type := kAndGate\<rparr>" F "Suc 0" "map Lit ?A"]
          that cg Cons.prems(2,4,6,13,14) lits [of G''] by simp
      then show ?thesis by blast
    qed
    have fr': "\<forall>i. next_index ?G' \<le> i \<longrightarrow> node_at ?G' i = None"
      using Cons.prems(17) by (simp add: set_type_def node_at_upd_node)
    have frame': "\<forall>i. i < next_index G \<and> i \<noteq> gate \<longrightarrow> content ?G' i = content G i"
      by simp
    have read': "\<forall>G''. (\<forall>i. i = gate \<or> next_index G \<le> i \<and> i < next_index ?G' \<longrightarrow>
                  content G'' i = content ?G' i) \<longrightarrow>
        (\<exists>fuel. formula_of fuel F G'' gate = Some (atleast_expansion k ?A))"
      using read by blast
    have "next_index G \<le> next_index ?G'" by simp
    then show ?thesis
      using run fr' frame' read' by blast
  next
    case False
    show ?thesis
    proof (cases "k = 1")
      case True
      let ?G' = "set_type gate kOrGate G"
      have run: "NormalizeAtleastGate dbg gate G = Some ?G'"
        using n(1) nf dbg_ok False True by (subst NormalizeAtleastGate_unfold) simp
      have cg: "content ?G' gate = Some (c\<lparr>type := kOrGate\<rparr>)"
        using Cons.prems(1) by simp
      have read: "\<exists>fuel. formula_of fuel F G'' gate = Some (atleast_expansion k ?A)"
        if "content G'' gate = content ?G' gate" for G''
      proof -
        have e: "atleast_expansion k ?A = Op kOrGate 0 (map Lit ?A)" using True False by simp
        have "formula_of (Suc (Suc 0)) F G'' gate = Some (atleast_expansion k ?A)"
          unfolding e
          using formula_of_gate [of G'' gate "c\<lparr>type := kOrGate\<rparr>" F "Suc 0" "map Lit ?A"]
            that cg Cons.prems(2,4,6,13,14) lits [of G''] by simp
        then show ?thesis by blast
      qed
      have fr': "\<forall>i. next_index ?G' \<le> i \<longrightarrow> node_at ?G' i = None"
        using Cons.prems(17) by (simp add: set_type_def node_at_upd_node)
      have frame': "\<forall>i. i < next_index G \<and> i \<noteq> gate \<longrightarrow> content ?G' i = content G i"
        by simp
      have read': "\<forall>G''. (\<forall>i. i = gate \<or> next_index G \<le> i \<and> i < next_index ?G' \<longrightarrow>
                    content G'' i = content ?G' i) \<longrightarrow>
          (\<exists>fuel. formula_of fuel F G'' gate = Some (atleast_expansion k ?A))"
        using read by blast
      have "next_index G \<le> next_index ?G'" by simp
      then show ?thesis
        using run fr' frame' read' by blast
    next
      case k1: False
      define N where "N = next_index G"
      from False k1 Cons.prems(7,8) have k: "2 \<le> k" "k \<le> int (length as)" by auto
      have small: "\<forall>x \<in> set ?A. abs x < next_index G \<and> abs x \<noteq> gate"
        using Cons.prems(12,13,15) by auto
      from atleast_split_facts [OF Cons.prems(1,6,10,11) small Cons.prems(16,17), of k]
      obtain Gs where split: "NormalizeAtleastGate_split gate k a as G = (N + 1, N + 2, Gs)"
        and ns: "next_index Gs = N + 3"
        and cs: "\<And>i. content Gs i =
             (if i = gate then Some (c\<lparr>type := kOrGate, args := [N, N + 2]\<rparr>)
              else if i = N then Some ((new_gate_node kAndGate)\<lparr>args := [a, N + 1], mark := True\<rparr>)
              else if i = N + 1
              then Some ((new_gate_node kAtleastGate)\<lparr>vote_number := k - 1, args := as, mark := True\<rparr>)
              else if i = N + 2
              then Some ((new_gate_node kAtleastGate)\<lparr>vote_number := k, args := as, mark := True\<rparr>)
              else content G i)"
        unfolding N_def by blast
      have gN: "gate < N" "0 < N" using Cons.prems(14,16) by (auto simp: N_def)
      have FN: "\<forall>i \<in> set F. i < N" using Cons.prems(15) by (simp add: N_def)
      have fresh_s: "\<forall>i. next_index Gs \<le> i \<longrightarrow> node_at Gs i = None"
      proof (intro allI impI)
        fix i assume "next_index Gs \<le> i"
        then have "N + 3 \<le> i" using ns by simp
        then have "content Gs i = content G i" "next_index G \<le> i"
          using cs [of i] gN by (auto simp: N_def)
        then show "node_at Gs i = None" using Cons.prems(17) by (metis content_None)
      qed
      \<comment> \<open>the first recursive call, on the grand argument\<close>
      have c1: "content Gs (N + 1) =
          Some ((new_gate_node kAtleastGate)\<lparr>vote_number := k - 1, args := as, mark := True\<rparr>)"
        using cs [of "N + 1"] gN by simp
      have "\<exists>G'. NormalizeAtleastGate dbg (N + 1) Gs = Some G' \<and> next_index Gs \<le> next_index G' \<and>
         (\<forall>i. i < next_index Gs \<and> i \<noteq> N + 1 \<longrightarrow> content G' i = content Gs i) \<and>
         (\<forall>i. next_index G' \<le> i \<longrightarrow> node_at G' i = None) \<and>
         (\<forall>G''. (\<forall>i. i = N + 1 \<or> next_index Gs \<le> i \<and> i < next_index G' \<longrightarrow>
                      content G'' i = content G' i) \<longrightarrow>
            (\<exists>fuel. formula_of fuel F G'' (N + 1) = Some (atleast_expansion (k - 1) as)))"
      proof (rule Cons.IH [OF c1])
        show "dbg \<longrightarrow> 1 < length as" using k by auto
        show "sorted as" "distinct (map abs as)" "\<forall>x \<in> set as. abs x \<in> set F"
          using Cons.prems(10,11,12) by auto
        show "N + 1 \<notin> set F" using FN by auto
        show "\<forall>i \<in> set F. i < next_index Gs" using FN ns by auto
        show "\<forall>i. next_index Gs \<le> i \<longrightarrow> node_at Gs i = None" by (rule fresh_s)
      qed (use k gN ns in \<open>simp_all add: new_gate_node_def\<close>)
      then obtain G1 where run1: "NormalizeAtleastGate dbg (N + 1) Gs = Some G1"
        and n1: "N + 3 \<le> next_index G1"
        and frame1: "\<And>i. i < N + 3 \<Longrightarrow> i \<noteq> N + 1 \<Longrightarrow> content G1 i = content Gs i"
        and fresh1: "\<forall>i. next_index G1 \<le> i \<longrightarrow> node_at G1 i = None"
        and read1: "\<And>G''. (\<forall>i. i = N + 1 \<or> N + 3 \<le> i \<and> i < next_index G1 \<longrightarrow>
                      content G'' i = content G1 i) \<Longrightarrow>
            \<exists>fuel. formula_of fuel F G'' (N + 1) = Some (atleast_expansion (k - 1) as)"
        unfolding ns by blast
      \<comment> \<open>the second recursive call, on the second argument\<close>
      have c2: "content G1 (N + 2) =
          Some ((new_gate_node kAtleastGate)\<lparr>vote_number := k, args := as, mark := True\<rparr>)"
        using frame1 [of "N + 2"] cs [of "N + 2"] gN by simp
      have "\<exists>G'. NormalizeAtleastGate dbg (N + 2) G1 = Some G' \<and> next_index G1 \<le> next_index G' \<and>
         (\<forall>i. i < next_index G1 \<and> i \<noteq> N + 2 \<longrightarrow> content G' i = content G1 i) \<and>
         (\<forall>i. next_index G' \<le> i \<longrightarrow> node_at G' i = None) \<and>
         (\<forall>G''. (\<forall>i. i = N + 2 \<or> next_index G1 \<le> i \<and> i < next_index G' \<longrightarrow>
                      content G'' i = content G' i) \<longrightarrow>
            (\<exists>fuel. formula_of fuel F G'' (N + 2) = Some (atleast_expansion k as)))"
      proof (rule Cons.IH [OF c2])
        show "dbg \<longrightarrow> 1 < length as" using k by auto
        show "sorted as" "distinct (map abs as)" "\<forall>x \<in> set as. abs x \<in> set F"
          using Cons.prems(10,11,12) by auto
        show "N + 2 \<notin> set F" using FN by auto
        show "\<forall>i \<in> set F. i < next_index G1" using FN n1 by auto
        show "\<forall>i. next_index G1 \<le> i \<longrightarrow> node_at G1 i = None" by (rule fresh1)
      qed (use k gN n1 in \<open>simp_all add: new_gate_node_def\<close>)
      then obtain G2 where run2: "NormalizeAtleastGate dbg (N + 2) G1 = Some G2"
        and n2: "next_index G1 \<le> next_index G2"
        and frame2: "\<And>i. i < next_index G1 \<Longrightarrow> i \<noteq> N + 2 \<Longrightarrow> content G2 i = content G1 i"
        and fresh2: "\<forall>i. next_index G2 \<le> i \<longrightarrow> node_at G2 i = None"
        and read2: "\<And>G''. (\<forall>i. i = N + 2 \<or> next_index G1 \<le> i \<and> i < next_index G2 \<longrightarrow>
                      content G'' i = content G2 i) \<Longrightarrow>
            \<exists>fuel. formula_of fuel F G'' (N + 2) = Some (atleast_expansion k as)"
        by blast
      have run: "NormalizeAtleastGate dbg gate G = Some G2"
        using n(1) nf dbg_ok False k1 split run1 run2
        by (subst NormalizeAtleastGate_unfold) simp
      have frame: "content G2 i = content G i" if "i < N" "i \<noteq> gate" for i
      proof -
        have "content G2 i = content G1 i" using frame2 [of i] that n1 by simp
        also have "\<dots> = content Gs i" using frame1 [of i] that by simp
        also have "\<dots> = content G i" using cs [of i] that by simp
        finally show ?thesis .
      qed
      have read: "\<exists>fuel. formula_of fuel F G'' gate = Some (atleast_expansion k ?A)"
        if agree: "\<forall>i. i = gate \<or> N \<le> i \<and> i < next_index G2 \<longrightarrow> content G'' i = content G2 i"
        for G''
      proof -
        have a1: "\<forall>i. i = N + 1 \<or> N + 3 \<le> i \<and> i < next_index G1 \<longrightarrow>
            content G'' i = content G1 i"
        proof (intro allI impI)
          fix i assume i: "i = N + 1 \<or> N + 3 \<le> i \<and> i < next_index G1"
          then have "content G'' i = content G2 i" using agree n1 n2 by auto
          also have "\<dots> = content G1 i" using frame2 [of i] i n1 by auto
          finally show "content G'' i = content G1 i" .
        qed
        have a2: "\<forall>i. i = N + 2 \<or> next_index G1 \<le> i \<and> i < next_index G2 \<longrightarrow>
            content G'' i = content G2 i"
          using agree n1 n2 by auto
        from read1 [OF a1] obtain f1 where
          f1: "formula_of f1 F G'' (N + 1) = Some (atleast_expansion (k - 1) as)" by blast
        from read2 [OF a2] obtain f2 where
          f2: "formula_of f2 F G'' (N + 2) = Some (atleast_expansion k as)" by blast
        define fu where "fu = Suc (f1 + f2)"
        have g1: "formula_of fu F G'' (N + 1) = Some (atleast_expansion (k - 1) as)"
          using formula_of_mono [OF f1, of "Suc f2"] by (simp add: fu_def)
        have g2: "formula_of fu F G'' (N + 2) = Some (atleast_expansion k as)"
          using formula_of_mono [OF f2, of "Suc f1"] by (simp add: fu_def add.commute)
        have ga: "formula_of fu F G'' a = Some (Lit a)"
          using Cons.prems(12) by (simp add: fu_def)
        \<comment> \<open>the AND gate\<close>
        have cN: "content G'' N =
            Some ((new_gate_node kAndGate)\<lparr>args := [a, N + 1], mark := True\<rparr>)"
        proof -
          have "content G'' N = content G2 N" using agree n1 n2 by auto
          also have "\<dots> = content G1 N" using frame2 [of N] n1 by simp
          also have "\<dots> = content Gs N" using frame1 [of N] by simp
          finally show ?thesis using cs [of N] gN by simp
        qed
        have fN: "formula_of (Suc fu) F G'' N =
            Some (Op kAndGate 0 [Lit a, atleast_expansion (k - 1) as])"
          using formula_of_gate [OF cN, of F fu "[Lit a, atleast_expansion (k - 1) as]"]
            gN FN ga g1 by (auto simp: new_gate_node_def)
        have fS: "formula_of (Suc fu) F G'' (N + 2) = Some (atleast_expansion k as)"
          using formula_of_mono [OF g2, of 1] by simp
        \<comment> \<open>the gate itself\<close>
        have cG: "content G'' gate = Some (c\<lparr>type := kOrGate, args := [N, N + 2]\<rparr>)"
        proof -
          have "content G'' gate = content G2 gate" using agree by simp
          also have "\<dots> = content G1 gate" using frame2 [of gate] gN n1 by simp
          also have "\<dots> = content Gs gate" using frame1 [of gate] gN by simp
          finally show ?thesis using cs [of gate] by simp
        qed
        have e: "atleast_expansion k ?A =
            Op kOrGate 0 [Op kAndGate 0 [Lit a, atleast_expansion (k - 1) as],
                          atleast_expansion k as]"
          using False k1 by simp
        have "formula_of (Suc (Suc fu)) F G'' gate = Some (atleast_expansion k ?A)"
          unfolding e
          using formula_of_gate [OF cG, of F "Suc fu"
              "[Op kAndGate 0 [Lit a, atleast_expansion (k - 1) as], atleast_expansion k as]"]
            Cons.prems(2,4,13,14) fN fS by simp
        then show ?thesis by blast
      qed
      have le: "next_index G \<le> next_index G2" using n1 n2 by (simp add: N_def)
      have frame': "\<forall>i. i < next_index G \<and> i \<noteq> gate \<longrightarrow> content G2 i = content G i"
        using frame by (simp add: N_def)
      have read': "\<forall>G''. (\<forall>i. i = gate \<or> next_index G \<le> i \<and> i < next_index G2 \<longrightarrow>
                    content G'' i = content G2 i) \<longrightarrow>
          (\<exists>fuel. formula_of fuel F G'' gate = Some (atleast_expansion k ?A))"
        using read unfolding N_def by blast
      show ?thesis
        using run le frame' fresh2 read' by blast
    qed
  qed
qed


text \<open>
  Claim C5. For an ATLEAST gate with vote number \<open>k\<close> over the arguments \<open>A\<close>, with
  \<open>1 \<le> k \<le> |A|\<close> (and more than one argument in a build with assertions),
  \<open>NormalizeAtleastGate\<close> returns, and the graph below the gate then reads as the recursive
  expansion OR(AND(first argument, ATLEAST(k - 1, rest)), ATLEAST(k, rest)), where a gate
  becomes AND when the number of its arguments equals its vote number and OR when its vote
  number is 1. The expansion is true exactly when at least \<open>k\<close> of the arguments are true,
  and no node that existed before, other than the gate, changes but in its parents. The
  arguments are read as literals: their nodes are in the frontier \<open>F\<close>.
\<close>

theorem NormalizeAtleastGate_atleast:
  assumes "gate_of G gate = Some n" "type n = kAtleastGate" "state n = kNormalState"
    "vote_number n = k" "args n = A"
    "1 \<le> k" "k \<le> int (length A)" "dbg \<longrightarrow> 1 < length A"
    "sorted A" "distinct (map abs A)" "\<forall>a \<in> set A. abs a \<in> set F" "gate \<notin> set F" "0 < gate"
    "\<forall>i \<in> set F. i < next_index G" "gate < next_index G"
    "\<forall>i. next_index G \<le> i \<longrightarrow> node_at G i = None"
  shows "\<exists>G' fuel. NormalizeAtleastGate dbg gate G = Some G' \<and>
     formula_of fuel F G' gate = Some (atleast_expansion k A) \<and>
     (\<forall>\<rho>. eval_formula \<rho> (atleast_expansion k A) = (k \<le> count_true (map (lit \<rho>) A))) \<and>
     (\<forall>i. i < next_index G \<and> i \<noteq> gate \<longrightarrow> content G' i = content G i)"
proof -
  from assms(1) have c: "content G gate = Some (strip n)" "kind (strip n) = kGate"
    by (auto simp: gate_of_def content_def split: option.splits if_splits)
  have "\<exists>G'. NormalizeAtleastGate dbg gate G = Some G' \<and> next_index G \<le> next_index G' \<and>
     (\<forall>i. i < next_index G \<and> i \<noteq> gate \<longrightarrow> content G' i = content G i) \<and>
     (\<forall>i. next_index G' \<le> i \<longrightarrow> node_at G' i = None) \<and>
     (\<forall>G''. (\<forall>i. i = gate \<or> next_index G \<le> i \<and> i < next_index G' \<longrightarrow>
                  content G'' i = content G' i) \<longrightarrow>
        (\<exists>fuel. formula_of fuel F G'' gate = Some (atleast_expansion k A)))"
    by (rule NormalizeAtleastGate_expansion [OF c]) (use assms in simp_all)
  then obtain G' where G': "NormalizeAtleastGate dbg gate G = Some G'"
    "\<forall>i. i < next_index G \<and> i \<noteq> gate \<longrightarrow> content G' i = content G i"
    "\<forall>G''. (\<forall>i. i = gate \<or> next_index G \<le> i \<and> i < next_index G' \<longrightarrow>
                  content G'' i = content G' i) \<longrightarrow>
        (\<exists>fuel. formula_of fuel F G'' gate = Some (atleast_expansion k A))"
    by blast
  from G'(3) obtain fuel where "formula_of fuel F G' gate = Some (atleast_expansion k A)"
    by blast
  moreover have "\<forall>\<rho>. eval_formula \<rho> (atleast_expansion k A) = (k \<le> count_true (map (lit \<rho>) A))"
    using eval_atleast_expansion [OF assms(6,7)] by blast
  ultimately show ?thesis using G'(1,2) by blast
qed

theorem NormalizeAtleastGate_atleast_witness:
  "\<exists>G' fuel. NormalizeAtleastGate True 10 atleast_graph = Some G' \<and>
     formula_of fuel [1, 2, 3] G' 10 =
       Some (Op kOrGate 0 [Op kAndGate 0 [Lit 1, Op kOrGate 0 [Lit 2, Lit 3]],
                           Op kAndGate 0 [Lit 2, Lit 3]])"
proof -
  have "\<exists>G' fuel. NormalizeAtleastGate True 10 atleast_graph = Some G' \<and>
     formula_of fuel [1, 2, 3] G' 10 = Some (atleast_expansion 2 [1, 2, 3]) \<and>
     (\<forall>\<rho>. eval_formula \<rho> (atleast_expansion 2 [1, 2, 3]) =
          (2 \<le> count_true (map (lit \<rho>) [1, 2, 3]))) \<and>
     (\<forall>i. i < next_index atleast_graph \<and> i \<noteq> 10 \<longrightarrow>
          content G' i = content atleast_graph i)"
    by (rule NormalizeAtleastGate_atleast
              [of atleast_graph 10 "example_gate kAtleastGate 2 [1, 2, 3] []" 2 "[1, 2, 3]" True
                  "[1, 2, 3]"])
       (auto simp: atleast_graph_def gate_of_def node_at_def example_gate_def example_leaf_def)
  then obtain G' fuel where "NormalizeAtleastGate True 10 atleast_graph = Some G'"
    "formula_of fuel [1, 2, 3] G' 10 = Some (atleast_expansion 2 [1, 2, 3])" by blast
  then show ?thesis by (intro exI [of _ G'] exI [of _ fuel]) simp
qed

section \<open>Boolean optimization of common nodes\<close>

lemma strip_marks [simp]:
  "opti_value (strip n) = opti_value n" "num_failed_args (strip n) = num_failed_args n"
  "strip (n\<lparr>state := s\<rparr>) = (strip n)\<lparr>state := s\<rparr>"
  by (simp_all add: strip_def)







lemma redundant_rewrite_kind [simp]: "kind (redundant_rewrite node c) = kind c"
  by (simp add: redundant_rewrite_def split: Operator.splits)














lemma clear_opti_updates [simp]:
  "clear_opti (n\<lparr>opti_value := v\<rparr>) = clear_opti n"
  "clear_opti (n\<lparr>num_failed_args := k\<rparr>) = clear_opti n"
  by (simp_all add: clear_opti_def)

lemma same_but_opti_refl [simp]: "same_but_opti G G"
  by (simp add: same_but_opti_def)



lemma same_but_opti_node_at:
  assumes "same_but_opti G G'"
  shows "map_option clear_opti (node_at G' i) = map_option clear_opti (node_at G i)"
proof -
  have "map_option clear_opti (map_of xs i) = map_of (map (\<lambda>(i, n). (i, clear_opti n)) xs) i" for xs
    by (induction xs) auto
  then show ?thesis using assms by (simp add: same_but_opti_def node_at_def)
qed



lemma same_but_opti_None:
  "same_but_opti G G' \<Longrightarrow> node_at G i = None \<Longrightarrow> node_at G' i = None"
  using same_but_opti_node_at [of G G' i] by (cases "node_at G' i") auto



lemma failure_extendsI:
  "same_but_opti G G' \<Longrightarrow> (\<And>i. failed_in G i \<Longrightarrow> failed_in G' i) \<Longrightarrow> failure_extends G G'"
  by (simp add: failure_extends_def list_all_iff)



lemma failure_extends_refl [simp]: "failure_extends G G"
  by (simp add: failure_extendsI)


lemma failed_multiplicity_refl [simp]: "failed_multiplicity G G = 0"
  by (simp add: failed_multiplicity_def)














lemma set_insert_not_Nil [simp]: "set_insert a xs \<noteq> []"
  by (auto simp: set_insert_def dest: arg_cong [where f = set])



lemma node_at_held [simp]: "node_at (G\<lparr>held := h\<rparr>) i = node_at G i"
  by (simp add: node_at_def)

lemma root_held [simp]: "root (G\<lparr>held := h\<rparr>) = root G"
  by simp





section \<open>Multiple definitions of gates\<close>

lemma clear_mark_fields [simp]:
  "kind (clear_mark n) = kind n" "parents (clear_mark n) = parents n"
  "type (clear_mark n) = type n" "args (clear_mark n) = args n" "state (clear_mark n) = state n"
  "vote_number (clear_mark n) = vote_number n"
  by (simp_all add: clear_mark_def)

lemma clear_mark_eq_fields:
  "clear_mark n' = clear_mark n \<Longrightarrow>
   kind n' = kind n \<and> parents n' = parents n \<and> type n' = type n \<and> args n' = args n \<and>
   state n' = state n \<and> vote_number n' = vote_number n"
  by (metis clear_mark_fields)

lemma clear_mark_update [simp]: "clear_mark (n\<lparr>mark := b\<rparr>) = clear_mark n"
  by (simp add: clear_mark_def)

lemma same_but_mark_refl [simp]: "same_but_mark G G"
  by (simp add: same_but_mark_def)


lemma same_but_mark_sym: "same_but_mark G G' \<Longrightarrow> same_but_mark G' G"
  by (simp add: same_but_mark_def)







lemma equivalent_clear_mark:
  "clear_mark a' = clear_mark a \<Longrightarrow> clear_mark b' = clear_mark b \<Longrightarrow>
   equivalent a' b' = equivalent a b"
  by (auto simp: equivalent_def dest!: clear_mark_eq_fields)

lemma equivalent_refl [simp]: "equivalent a a"
  by (simp add: equivalent_def)

























lemma content_held [simp]: "content (G\<lparr>held := h\<rparr>) i = content G i"
  by (simp add: content_def)





lemma replace_reference_kind [simp]: "kind (replace_reference orig_gate index c) = kind c"
  by (simp add: replace_reference_def add_reference_def Let_def)









end
